theory Spec2Isabelle
  imports Main "HOL-Library.Word" "HOL-Library.Signed_Division"
begin

section \<open>Outcomes of a call\<close>

text \<open>
  A C call either returns, or stops in undefined behaviour, or runs forever.
  The three are kept apart: \<open>None\<close> is a call that never returns,
  \<open>Some (Inl e)\<close> is a call that leaves defined behaviour at the fault \<open>e\<close>,
  \<open>Some (Inr v)\<close> is a call that returns \<open>v\<close>.  A failed allocation (the
  \<^verbatim>\<open>exit(1)\<close> paths, and \<^verbatim>\<open>malloc\<close> running out of memory for a request
  of representable size) is not modelled: memory is assumed to suffice.
\<close>

datatype error =
    DivByZero       \<comment> \<open>\<^verbatim>\<open>x % 0\<close>\<close>
  | UninitRead      \<comment> \<open>an array element is read that was never written since \<^verbatim>\<open>malloc\<close>\<close>
  | NullDeref       \<comment> \<open>access through a null pointer\<close>
  | OutOfBounds     \<comment> \<open>index outside the bucket array\<close>
  | InvalidPointer  \<comment> \<open>access through a pointer to no live node\<close>
  | IntOverflow     \<comment> \<open>signed overflow of an \<^verbatim>\<open>int\<close>\<close>

type_synonym 'a outcome = "(error + 'a) option"

definition ok :: "'a \<Rightarrow> 'a outcome" where
  "ok v = Some (Inr v)"

definition err :: "error \<Rightarrow> 'a outcome" where
  "err e = Some (Inl e)"

definition bind_o :: "'a outcome \<Rightarrow> ('a \<Rightarrow> 'b outcome) \<Rightarrow> 'b outcome" where
  "bind_o x f = (case x of None \<Rightarrow> None | Some (Inl e) \<Rightarrow> Some (Inl e) | Some (Inr v) \<Rightarrow> f v)"

lemma bind_o_simps [simp]:
  "bind_o None f = None"
  "bind_o (err e) f = err e"
  "bind_o (ok v) f = f v"
  "bind_o (Some (Inl e)) f = Some (Inl e)"
  "bind_o (Some (Inr v)) f = f v"
  by (simp_all add: bind_o_def ok_def err_def)

lemma ok_neq [simp]:
  "ok v \<noteq> None" "None \<noteq> ok v" "ok v \<noteq> err e" "err e \<noteq> ok v" "err e \<noteq> None" "None \<noteq> err e"
  "(ok v = ok w) = (v = w)" "(err e = err e') = (e = e')"
  "(ok v = Some (Inr w)) = (v = w)" "(Some (Inr w) = ok v) = (w = v)"
  "ok v \<noteq> Some (Inl e)" "Some (Inl e) \<noteq> ok v"
  "(err e = Some (Inl e')) = (e = e')" "(Some (Inl e') = err e) = (e' = e)"
  "err e \<noteq> Some (Inr v)" "Some (Inr v) \<noteq> err e"
  by (auto simp: ok_def err_def)

lemma bind_o_eq_ok:
  "(bind_o x f = ok r) = (\<exists>v. x = ok v \<and> f v = ok r)"
  by (auto simp: bind_o_def ok_def split: option.splits sum.splits)

lemma bind_o_mono [partial_function_mono]:
  assumes "mono_option B" and "\<And>y. mono_option (C y)"
  shows "mono_option (\<lambda>f. bind_o (B f) (\<lambda>y. C y f))"
proof -
  have eq: "\<And>f. bind_o (B f) (\<lambda>y. C y f)
      = Option.bind (B f) (\<lambda>r. case r of Inl e \<Rightarrow> Some (Inl e) | Inr v \<Rightarrow> C v f)"
    by (simp add: bind_o_def split: option.splits sum.splits)
  have "mono_option (\<lambda>f. Option.bind (B f) (\<lambda>r. case r of Inl e \<Rightarrow> Some (Inl e) | Inr v \<Rightarrow> C v f))"
  proof (rule bind_mono [OF assms(1)])
    fix r :: "error + 'c"
    show "mono_option (\<lambda>f. case r of Inl e \<Rightarrow> Some (Inl e) | Inr v \<Rightarrow> C v f)"
      by (cases r) (simp_all add: assms(2) option.const_mono)
  qed
  then show ?thesis by (simp only: eq)
qed

section \<open>The hash function\<close>

type_synonym int64_t = "64 word"

definition INT_MAX :: int where
  "INT_MAX = 2147483647"

definition INT_MIN :: int where
  "INT_MIN = - 2147483648"

definition MIN_TABLE_SIZE :: int where
  "MIN_TABLE_SIZE = 16"

text \<open>
  The file-level statics \<^verbatim>\<open>p\<close>, \<^verbatim>\<open>a\<close>, \<^verbatim>\<open>b\<close>.  They are zero until
  \<^verbatim>\<open>init_hash\<close> runs; \<^verbatim>\<open>init_hash\<close> sets \<^verbatim>\<open>p\<close> to \<open>2^61 - 1\<close> and draws
  \<^verbatim>\<open>a\<close> and \<^verbatim>\<open>b\<close> from \<^verbatim>\<open>random()\<close>, whose two results are the arguments
  \<open>r1\<close> and \<open>r2\<close> here.
\<close>

record hash_params =
  hp_p :: int64_t
  hp_a :: int64_t
  hp_b :: int64_t

definition uninitialised_params :: hash_params where
  "uninitialised_params = \<lparr>hp_p = 0, hp_a = 0, hp_b = 0\<rparr>"

definition init_hash :: "int64_t \<Rightarrow> int64_t \<Rightarrow> hash_params" where
  "init_hash r1 r2 = \<lparr>hp_p = 2305843009213693951, hp_a = r1, hp_b = r2\<rparr>"

text \<open>
  \<^verbatim>\<open>mod\<close>: the loop \<^verbatim>\<open>while (x < 0) x += y;\<close> followed by \<^verbatim>\<open>x % y\<close>.
  The 64-bit additions wrap around, as two's-complement hardware does.  The
  loop runs forever for \<open>x < 0\<close> and \<open>y = 0\<close>.  C's \<^verbatim>\<open>%\<close> truncates
  towards zero and traps on a zero divisor.
\<close>

partial_function (option) mod_loop :: "int64_t \<Rightarrow> int64_t \<Rightarrow> int64_t option" where
  "mod_loop x y = (if x <s 0 then mod_loop (x + y) y else Some x)"

declare mod_loop.simps [code]

definition mod_c :: "int64_t \<Rightarrow> int64_t \<Rightarrow> int64_t outcome" where
  "mod_c x y =
     (case mod_loop x y of
        None \<Rightarrow> None
      | Some x' \<Rightarrow> if y = 0 then err DivByZero
                  else ok (word_of_int (sint x' smod sint y)))"

text \<open>
  \<^verbatim>\<open>prehash\<close>: Bernstein's hash, \<^verbatim>\<open>hash = ((hash << 5) + hash) + c\<close> over
  the bytes before the terminator, in wrapping 64-bit arithmetic.  A \<open>string\<close>
  stands for the bytes of a C string before its terminating zero; \<^verbatim>\<open>char\<close>
  is signed, as on x86-64, so a byte above 127 enters as a negative \<^verbatim>\<open>int\<close>.
\<close>

fun prehash_loop :: "int64_t \<Rightarrow> string \<Rightarrow> int64_t" where
  "prehash_loop h [] = h"
| "prehash_loop h (c # str) =
     prehash_loop ((push_bit 5 h + h) + signed (of_char c :: 8 word)) str"

definition prehash :: "string \<Rightarrow> int64_t" where
  "prehash str = prehash_loop 5381 str"

text \<open>
  \<^verbatim>\<open>hash\<close>: \<^verbatim>\<open>mod(mod(a * k + b, p), m)\<close>; the \<^verbatim>\<open>int\<close> argument \<open>m\<close> is
  widened to 64 bits and the 64-bit result is narrowed back to \<^verbatim>\<open>int\<close>.
\<close>

definition hash :: "hash_params \<Rightarrow> string \<Rightarrow> int \<Rightarrow> int outcome" where
  "hash hp str m =
     (let k = prehash str in
      bind_o (mod_c (hp_a hp * k + hp_b hp) (hp_p hp)) (\<lambda>x.
      bind_o (mod_c x (word_of_int m)) (\<lambda>r.
      ok (sint (ucast r :: 32 word)))))"


section \<open>Nodes, the bucket array and the table\<close>

type_synonym addr = nat

record node_t =
  node_next :: "addr option"
  node_prev :: "addr option"
  node_key :: string
  node_value :: string

type_synonym heap = "addr \<Rightarrow> node_t option"

text \<open>
  An element of the bucket array is either a pointer (\<open>Ptr None\<close> is the null
  pointer) or still holds what \<^verbatim>\<open>malloc\<close> left there.  \<^verbatim>\<open>malloc\<close> promises
  nothing about the contents of the block it returns, so they are a parameter
  \<open>junk\<close> of every operation that allocates a bucket array: element \<open>i\<close> of
  the fresh array is \<open>junk i\<close>.  \<open>(\<lambda>_. Uninit)\<close> is the indeterminate block
  of the C standard; \<open>(\<lambda>_. Ptr None)\<close> is a block that happens to be zero.
\<close>

datatype slot = Uninit | Ptr "addr option"

text \<open>
  \<^verbatim>\<open>hasht_t\<close> with the node objects its pointers refer to: \<open>ht_table\<close> is
  the array \<^verbatim>\<open>table\<close> points to (\<open>None\<close> for a null \<^verbatim>\<open>table\<close>) and
  \<open>ht_nodes\<close> maps the address of every live \<^verbatim>\<open>node_t\<close> to its contents.
\<close>

record hasht_t =
  ht_m :: int
  ht_n :: int
  ht_table :: "slot list option"
  ht_nodes :: heap

definition read_slot :: "slot list option \<Rightarrow> int \<Rightarrow> addr option outcome" where
  "read_slot t i =
     (case t of
        None \<Rightarrow> err NullDeref
      | Some xs \<Rightarrow>
          if i < 0 \<or> int (length xs) \<le> i then err OutOfBounds
          else (case xs ! nat i of Uninit \<Rightarrow> err UninitRead | Ptr p \<Rightarrow> ok p))"

definition write_slot :: "slot list option \<Rightarrow> int \<Rightarrow> addr option \<Rightarrow> slot list option outcome" where
  "write_slot t i p =
     (case t of
        None \<Rightarrow> err NullDeref
      | Some xs \<Rightarrow>
          if i < 0 \<or> int (length xs) \<le> i then err OutOfBounds
          else ok (Some (xs[nat i := Ptr p])))"

definition deref :: "heap \<Rightarrow> addr \<Rightarrow> node_t outcome" where
  "deref h a = (case h a of None \<Rightarrow> err InvalidPointer | Some nd \<Rightarrow> ok nd)"

definition set_next :: "heap \<Rightarrow> addr \<Rightarrow> addr option \<Rightarrow> heap outcome" where
  "set_next h a v = bind_o (deref h a) (\<lambda>nd. ok (h(a \<mapsto> nd\<lparr>node_next := v\<rparr>)))"

definition set_prev :: "heap \<Rightarrow> addr \<Rightarrow> addr option \<Rightarrow> heap outcome" where
  "set_prev h a v = bind_o (deref h a) (\<lambda>nd. ok (h(a \<mapsto> nd\<lparr>node_prev := v\<rparr>)))"

definition set_value :: "heap \<Rightarrow> addr \<Rightarrow> string \<Rightarrow> heap outcome" where
  "set_value h a v = bind_o (deref h a) (\<lambda>nd. ok (h(a \<mapsto> nd\<lparr>node_value := v\<rparr>)))"

text \<open>
  \<^verbatim>\<open>malloc(newm * sizeof(node_t *))\<close>: a negative \<open>newm\<close> is converted to
  a size no allocator can serve and the result is the null pointer; otherwise the
  block has \<open>newm\<close> elements, none of them written.
\<close>

definition malloc_slots :: "(nat \<Rightarrow> slot) \<Rightarrow> int \<Rightarrow> slot list option" where
  "malloc_slots junk newm = (if newm < 0 then None else Some (map junk [0..<nat newm]))"

text \<open>
  \<^verbatim>\<open>new_hash_node\<close>: \<open>a\<close> is the address \<^verbatim>\<open>malloc\<close> returns for the node;
  both links are null, key and value are copies.
\<close>

definition new_hash_node :: "heap \<Rightarrow> addr \<Rightarrow> string \<Rightarrow> string \<Rightarrow> heap" where
  "new_hash_node h a key val =
     h(a \<mapsto> \<lparr>node_next = None, node_prev = None, node_key = key, node_value = val\<rparr>)"

definition free_hash_node :: "heap \<Rightarrow> addr \<Rightarrow> heap" where
  "free_hash_node h a = h(a := None)"

definition new_hash_table :: hasht_t where
  "new_hash_table = \<lparr>ht_m = 0, ht_n = 0, ht_table = None, ht_nodes = Map.empty\<rparr>"

section \<open>Lookup\<close>

text \<open>The \<^verbatim>\<open>while (n != NULL)\<close> loop of \<^verbatim>\<open>hash_search_node\<close>.\<close>

partial_function (option) search_list :: "heap \<Rightarrow> string \<Rightarrow> addr option \<Rightarrow> addr option outcome" where
  "search_list h key n =
     (case n of
        None \<Rightarrow> ok None
      | Some a \<Rightarrow>
          bind_o (deref h a) (\<lambda>nd.
          if node_key nd = key then ok (Some a)
          else search_list h key (node_next nd)))"

declare search_list.simps [code]

definition hash_search_node :: "hash_params \<Rightarrow> hasht_t \<Rightarrow> string \<Rightarrow> addr option outcome" where
  "hash_search_node hp ht key =
     (if ht_m ht = 0 then ok None
      else
        bind_o (hash hp key (ht_m ht)) (\<lambda>slot.
        bind_o (read_slot (ht_table ht) slot) (\<lambda>head.
        search_list (ht_nodes ht) key head)))"

text \<open>
  The two public lookups take the table by pointer; the table after the call
  is returned next to the result.
\<close>

definition hash_contains :: "hash_params \<Rightarrow> hasht_t \<Rightarrow> string \<Rightarrow> (hasht_t \<times> int) outcome" where
  "hash_contains hp ht key =
     bind_o (hash_search_node hp ht key) (\<lambda>n.
     ok (ht, if n = None then 0 else 1))"

definition hash_search :: "hash_params \<Rightarrow> hasht_t \<Rightarrow> string \<Rightarrow> (hasht_t \<times> string option) outcome" where
  "hash_search hp ht key =
     bind_o (hash_search_node hp ht key) (\<lambda>n.
     case n of
       None \<Rightarrow> ok (ht, None)
     | Some a \<Rightarrow> bind_o (deref (ht_nodes ht) a) (\<lambda>nd. ok (ht, Some (node_value nd))))"

section \<open>Resizing\<close>

text \<open>
  The inner loop of \<^verbatim>\<open>resize_hash_table\<close>: every node of one old chain is
  unlinked and pushed on the front of its chain in the new array \<open>t\<close>.
\<close>

partial_function (option) rehash_list ::
  "hash_params \<Rightarrow> int \<Rightarrow> heap \<Rightarrow> slot list option \<Rightarrow> addr option \<Rightarrow> (heap \<times> slot list option) outcome" where
  "rehash_list hp newm h t n =
     (case n of
        None \<Rightarrow> ok (h, t)
      | Some a \<Rightarrow>
          bind_o (deref h a) (\<lambda>nd.
          let next = node_next nd in
          bind_o (hash hp (node_key nd) newm) (\<lambda>slot.
          bind_o (set_prev h a None) (\<lambda>h1.
          bind_o (set_next h1 a None) (\<lambda>h2.
          bind_o (read_slot t slot) (\<lambda>head.
          bind_o (case head of
                    None \<Rightarrow> ok h2
                  | Some b \<Rightarrow> bind_o (set_prev h2 b (Some a)) (\<lambda>h3. set_next h3 a (Some b))) (\<lambda>h4.
          bind_o (write_slot t slot (Some a)) (\<lambda>t'.
          rehash_list hp newm h4 t' next))))))))"

declare rehash_list.simps [code]

text \<open>The outer loop \<^verbatim>\<open>for (l = 0; l < ht->m; l++)\<close> over the old array.\<close>

fun rehash_slots ::
  "hash_params \<Rightarrow> int \<Rightarrow> slot list option \<Rightarrow> nat list \<Rightarrow> heap \<Rightarrow> slot list option
     \<Rightarrow> (heap \<times> slot list option) outcome" where
  "rehash_slots hp newm old [] h t = ok (h, t)"
| "rehash_slots hp newm old (l # ls) h t =
     bind_o (read_slot old (int l)) (\<lambda>n.
     bind_o (rehash_list hp newm h t n) (\<lambda>(h', t').
     rehash_slots hp newm old ls h' t'))"

definition resize_hash_table ::
  "hash_params \<Rightarrow> (nat \<Rightarrow> slot) \<Rightarrow> hasht_t \<Rightarrow> int \<Rightarrow> hasht_t outcome" where
  "resize_hash_table hp junk ht newm =
     (let t = malloc_slots junk newm in
      bind_o (rehash_slots hp newm (ht_table ht) [0..<nat (ht_m ht)] (ht_nodes ht) t) (\<lambda>(h, t').
      ok (ht\<lparr>ht_table := t', ht_m := newm, ht_nodes := h\<rparr>)))"

definition grow_hash_table :: "hash_params \<Rightarrow> (nat \<Rightarrow> slot) \<Rightarrow> hasht_t \<Rightarrow> hasht_t outcome" where
  "grow_hash_table hp junk ht =
     (if ht_m ht = 0 then
        ok (ht\<lparr>ht_m := MIN_TABLE_SIZE, ht_table := malloc_slots junk MIN_TABLE_SIZE\<rparr>)
      else if 2 * ht_m ht < INT_MIN \<or> INT_MAX < 2 * ht_m ht then err IntOverflow
      else resize_hash_table hp junk ht (2 * ht_m ht))"

definition shrink_hash_table :: "hash_params \<Rightarrow> (nat \<Rightarrow> slot) \<Rightarrow> hasht_t \<Rightarrow> hasht_t outcome" where
  "shrink_hash_table hp junk ht =
     (if ht_m ht < MIN_TABLE_SIZE * 2 then ok ht
      else resize_hash_table hp junk ht (ht_m ht sdiv 2))"

section \<open>Insertion and removal\<close>

text \<open>
  The part of \<^verbatim>\<open>hash_insert\<close> after the growth check: \<^verbatim>\<open>ht->n++\<close>, the
  new node, and its linking in front of its bucket; \<open>a\<close> is the address
  \<^verbatim>\<open>malloc\<close> hands to \<^verbatim>\<open>new_hash_node\<close>.
\<close>

definition link_new_node ::
  "hash_params \<Rightarrow> addr \<Rightarrow> hasht_t \<Rightarrow> string \<Rightarrow> string \<Rightarrow> hasht_t outcome" where
  "link_new_node hp a ht1 key val =
     (if ht_n ht1 = INT_MAX then err IntOverflow
      else
        let ht2 = ht1\<lparr>ht_n := ht_n ht1 + 1\<rparr>;
            h0 = new_hash_node (ht_nodes ht2) a key val
        in
        bind_o (hash hp key (ht_m ht2)) (\<lambda>slot.
        bind_o (read_slot (ht_table ht2) slot) (\<lambda>head.
        bind_o (case head of
                  None \<Rightarrow> ok h0
                | Some b \<Rightarrow> bind_o (set_next h0 a (Some b)) (\<lambda>h1. set_prev h1 b (Some a))) (\<lambda>h2.
        bind_o (write_slot (ht_table ht2) slot (Some a)) (\<lambda>t.
        ok (ht2\<lparr>ht_table := t, ht_nodes := h2\<rparr>))))))"

text \<open>
  \<^verbatim>\<open>hash_insert\<close>; \<open>junk\<close> is the contents of a bucket array allocated on
  the way.
\<close>

definition hash_insert ::
  "hash_params \<Rightarrow> (nat \<Rightarrow> slot) \<Rightarrow> addr \<Rightarrow> hasht_t \<Rightarrow> string \<Rightarrow> string \<Rightarrow> hasht_t outcome" where
  "hash_insert hp junk a ht key val =
     bind_o (hash_search_node hp ht key) (\<lambda>found.
     case found of
       Some f \<Rightarrow>
         bind_o (set_value (ht_nodes ht) f val) (\<lambda>h. ok (ht\<lparr>ht_nodes := h\<rparr>))
     | None \<Rightarrow>
         bind_o (if ht_n ht = ht_m ht then grow_hash_table hp junk ht else ok ht) (\<lambda>ht1.
         link_new_node hp a ht1 key val))"

text \<open>
  The part of \<^verbatim>\<open>hash_remove\<close> after the shrink check: \<^verbatim>\<open>ht->n--\<close>, the
  unlinking of the node \<open>n\<close> and \<^verbatim>\<open>free_hash_node(n)\<close>.
\<close>

definition unlink_node :: "hash_params \<Rightarrow> hasht_t \<Rightarrow> string \<Rightarrow> addr option \<Rightarrow> hasht_t outcome" where
  "unlink_node hp ht key n =
     (if ht_n ht = INT_MIN then err IntOverflow
      else
        let ht1 = ht\<lparr>ht_n := ht_n ht - 1\<rparr> in
        case n of
          None \<Rightarrow> err NullDeref
        | Some a \<Rightarrow>
            bind_o (deref (ht_nodes ht1) a) (\<lambda>nd.
            bind_o (case node_next nd of
                      None \<Rightarrow> ok (ht_nodes ht1)
                    | Some nx \<Rightarrow> set_prev (ht_nodes ht1) nx (node_prev nd)) (\<lambda>h1.
            bind_o (deref h1 a) (\<lambda>nd1.
            bind_o (case node_prev nd1 of
                      Some pv \<Rightarrow>
                        bind_o (set_next h1 pv (node_next nd1)) (\<lambda>h2. ok (h2, ht_table ht1))
                    | None \<Rightarrow>
                        bind_o (hash hp key (ht_m ht1)) (\<lambda>slot.
                        bind_o (write_slot (ht_table ht1) slot (node_next nd1)) (\<lambda>t.
                        ok (h1, t)))) (\<lambda>(h3, t).
            bind_o (deref h3 a) (\<lambda>_.
            ok (ht1\<lparr>ht_table := t, ht_nodes := free_hash_node h3 a\<rparr>)))))))"

definition hash_remove ::
  "hash_params \<Rightarrow> (nat \<Rightarrow> slot) \<Rightarrow> hasht_t \<Rightarrow> string \<Rightarrow> hasht_t outcome" where
  "hash_remove hp junk ht key =
     bind_o (hash_search_node hp ht key) (\<lambda>n.
     if n = None then ok ht
     else if ht_n ht sdiv 4 \<le> ht_m ht then
       bind_o (shrink_hash_table hp junk ht) (\<lambda>ht1.
       bind_o (hash_search_node hp ht1 key) (\<lambda>n1.
       unlink_node hp ht1 key n1))
     else unlink_node hp ht key n)"

section \<open>Reachable tables\<close>

text \<open>
  The tables a client can build: the empty table, and every table a returning
  \<^verbatim>\<open>hash_insert\<close> or \<^verbatim>\<open>hash_remove\<close> makes of one, whatever \<^verbatim>\<open>malloc\<close>
  returned on the way.
\<close>

inductive reachable :: "hash_params \<Rightarrow> hasht_t \<Rightarrow> bool" for hp :: hash_params where
  reach_new: "reachable hp new_hash_table"
| reach_insert: "reachable hp ht \<Longrightarrow> hash_insert hp junk a ht key val = ok ht' \<Longrightarrow> reachable hp ht'"
| reach_remove: "reachable hp ht \<Longrightarrow> hash_remove hp junk ht key = ok ht' \<Longrightarrow> reachable hp ht'"

text \<open>A call returns: it neither faults nor runs forever.  A call faults.\<close>

definition returns :: "'a outcome \<Rightarrow> bool" where
  "returns x = (case x of Some (Inr _) \<Rightarrow> True | _ \<Rightarrow> False)"

definition fault :: "'a outcome \<Rightarrow> error option" where
  "fault x = (case x of Some (Inl e) \<Rightarrow> Some e | _ \<Rightarrow> None)"

text \<open>
  Two blocks \<^verbatim>\<open>malloc\<close> may return: one whose elements are indeterminate, and
  one that happens to be all zero bits (null pointers).
\<close>

definition indeterminate :: "nat \<Rightarrow> slot" where
  "indeterminate = (\<lambda>_. Uninit)"

definition zeroed :: "nat \<Rightarrow> slot" where
  "zeroed = (\<lambda>_. Ptr None)"

text \<open>
  A table of 32 buckets that holds the one pair \<open>(''a'', ''1'')\<close>, in bucket 25,
  where \<^verbatim>\<open>hash\<close> puts the key for \<open>a = 3\<close> and \<open>b = 7\<close>.
\<close>

definition example_table :: hasht_t where
  "example_table =
     \<lparr>ht_m = 32, ht_n = 1,
      ht_table = Some ((replicate 32 (Ptr None))[25 := Ptr (Some 0)]),
      ht_nodes = [0 \<mapsto> \<lparr>node_next = None, node_prev = None,
                          node_key = ''a'', node_value = ''1''\<rparr>]\<rparr>"

text \<open>
  A client that inserts the pairs of a list one after the other; \<^verbatim>\<open>malloc\<close>
  hands out the node addresses \<open>a\<close>, \<open>a + 1\<close>, ... and every bucket array
  it returns has the contents \<open>junk\<close>.
\<close>

fun insert_all ::
  "hash_params \<Rightarrow> (nat \<Rightarrow> slot) \<Rightarrow> addr \<Rightarrow> hasht_t \<Rightarrow> (string \<times> string) list
     \<Rightarrow> hasht_t outcome" where
  "insert_all hp junk a ht [] = ok ht"
| "insert_all hp junk a ht ((k, v) # kvs) =
     bind_o (hash_insert hp junk a ht k v) (\<lambda>ht'. insert_all hp junk (Suc a) ht' kvs)"

definition sixteen_pairs :: "(string \<times> string) list" where
  "sixteen_pairs =
     [(''a'', ''1''), (''b'', ''2''), (''c'', ''3''), (''d'', ''4''),
      (''e'', ''5''), (''f'', ''6''), (''g'', ''7''), (''h'', ''8''),
      (''i'', ''9''), (''j'', ''10''), (''k'', ''11''), (''l'', ''12''),
      (''m'', ''13''), (''n'', ''14''), (''o'', ''15''), (''p'', ''16'')]"

text \<open>
  The table after \<^verbatim>\<open>new_hash_table\<close> and sixteen insertions, for \<open>a = 3\<close>
  and \<open>b = 7\<close>, when the first bucket array came zero-filled, as the first
  blocks of a fresh process do: \<open>n = m = 16\<close>, so the next insertion of a new
  key grows the table.
\<close>

definition full_table :: "hasht_t outcome" where
  "full_table = insert_all (init_hash 3 7) zeroed 0 new_hash_table sixteen_pairs"

section \<open>Well-formed tables\<close>

text \<open>
  The data model of the table, as predicates over the state: every bucket of a
  well-formed table heads a doubly linked chain that ends in null, a node lies
  in the bucket \<^verbatim>\<open>hash\<close> gives its key, no key occurs twice, and \<open>n\<close> counts
  the nodes.  \<open>B i\<close> is the list of the node addresses of bucket \<open>i\<close>.
\<close>

text \<open>
  \<open>chain h p pv as\<close>: from the pointer \<open>p\<close> the \<^verbatim>\<open>next\<close> links visit exactly the
  nodes \<open>as\<close> and end in null, and every \<^verbatim>\<open>prev\<close> link points back (\<open>pv\<close> for the first node).
\<close>

fun chain :: "heap \<Rightarrow> addr option \<Rightarrow> addr option \<Rightarrow> addr list \<Rightarrow> bool" where
  "chain h p pv [] = (p = None)"
| "chain h p pv (a # as) =
     (p = Some a \<and>
      (case h a of None \<Rightarrow> False
       | Some nd \<Rightarrow> node_prev nd = pv \<and> chain h (node_next nd) (Some a) as))"

definition key_of :: "heap \<Rightarrow> addr \<Rightarrow> string option" where
  "key_of h a = map_option node_key (h a)"

definition val_of :: "heap \<Rightarrow> addr \<Rightarrow> string option" where
  "val_of h a = map_option node_value (h a)"

definition all_nodes :: "int \<Rightarrow> (nat \<Rightarrow> addr list) \<Rightarrow> addr set" where
  "all_nodes m B = (\<Union>i\<in>{..<nat m}. set (B i))"

definition buckets_inv ::
  "hash_params \<Rightarrow> int \<Rightarrow> heap \<Rightarrow> slot list option \<Rightarrow> (nat \<Rightarrow> addr list) \<Rightarrow> bool" where
  "buckets_inv hp m h t B \<longleftrightarrow>
     (\<forall>i<nat m. \<exists>p. read_slot t (int i) = ok p \<and> chain h p None (B i))
   \<and> (\<forall>i<nat m. \<forall>a\<in>set (B i). \<exists>k. key_of h a = Some k \<and> hash hp k m = ok (int i))
   \<and> (\<forall>i<nat m. distinct (B i))
   \<and> inj_on (key_of h) (all_nodes m B)"

text \<open>The modulus \<^verbatim>\<open>p\<close> is positive, as after \<^verbatim>\<open>init_hash\<close>.\<close>

definition params_ok :: "hash_params \<Rightarrow> bool" where
  "params_ok hp \<longleftrightarrow> 0 < sint (hp_p hp)"

definition wf :: "hash_params \<Rightarrow> hasht_t \<Rightarrow> bool" where
  "wf hp ht \<longleftrightarrow>
     0 \<le> ht_m ht \<and> ht_m ht \<le> INT_MAX \<and>
     (\<exists>B. buckets_inv hp (ht_m ht) (ht_nodes ht) (ht_table ht) B
         \<and> ht_n ht = int (card (all_nodes (ht_m ht) B)))"

text \<open>Two heaps with the same keys and \<^verbatim>\<open>next\<close> links.\<close>

definition same_links :: "heap \<Rightarrow> heap \<Rightarrow> bool" where
  "same_links h h' \<longleftrightarrow>
     (\<forall>x. map_option node_key (h' x) = map_option node_key (h x)
        \<and> map_option node_next (h' x) = map_option node_next (h x))"

text \<open>The heap after the node \<open>a\<close>, with contents \<open>nd\<close>, is pushed in front of the chain at \<open>q\<close>.\<close>

definition pushed :: "heap \<Rightarrow> addr \<Rightarrow> node_t \<Rightarrow> addr option \<Rightarrow> heap" where
  "pushed h a nd q =
     (case q of
        None \<Rightarrow> h(a \<mapsto> nd\<lparr>node_prev := None, node_next := None\<rparr>)
      | Some b \<Rightarrow> (h(a \<mapsto> nd\<lparr>node_prev := None, node_next := Some b\<rparr>))
                    (b \<mapsto> (the (h b))\<lparr>node_prev := Some a\<rparr>))"

text \<open>The heap after the node \<open>a\<close> is unlinked from its chain and freed.\<close>

definition unlinked :: "heap \<Rightarrow> addr \<Rightarrow> heap" where
  "unlinked h a =
     (case h a of
        None \<Rightarrow> h
      | Some nd \<Rightarrow>
          let h1 = (case node_next nd of
                      None \<Rightarrow> h
                    | Some nx \<Rightarrow> h(nx \<mapsto> (the (h nx))\<lparr>node_prev := node_prev nd\<rparr>));
              h2 = (case node_prev nd of
                      None \<Rightarrow> h1
                    | Some pv \<Rightarrow> h1(pv \<mapsto> (the (h1 pv))\<lparr>node_next := node_next nd\<rparr>))
          in h2(a := None))"

text \<open>The value \<^verbatim>\<open>hash_search\<close> returns for a key.\<close>

definition lookup :: "hash_params \<Rightarrow> hasht_t \<Rightarrow> string \<Rightarrow> string option outcome" where
  "lookup hp ht key = bind_o (hash_search hp ht key) (\<lambda>(_, r). ok r)"

section \<open>Properties\<close>


subsection \<open>The hash function\<close>

lemma sint_add_no_wrap:
  fixes x y :: int64_t
  assumes "sint x < 0" "0 < sint y"
  shows "sint (x + y) = sint x + sint y"
proof -
  have bx: "- (2 ^ 63) \<le> sint x" using sint_ge [of x] by simp
  have by1: "sint y < 2 ^ 63" using sint_lt [of y] by simp
  have "sint (x + y) = signed_take_bit 63 (sint x + sint y)"
    by (simp add: sint_word_ariths)
  also have "\<dots> = sint x + sint y"
    using assms bx by1 by (intro signed_take_bit_int_eq_self) auto
  finally show ?thesis .
qed

text \<open>
  For a positive modulus the loop of \<^verbatim>\<open>mod\<close> ends, at a non-negative value
  congruent to its input: the measure is the distance of \<open>x\<close> below zero.
\<close>

lemma mod_loop_pos:
  fixes x y :: int64_t
  assumes "0 < sint y"
  shows "\<exists>x'. mod_loop x y = Some x' \<and> 0 \<le> sint x' \<and> sint x' mod sint y = sint x mod sint y"
proof (induction "nat (- sint x)" arbitrary: x rule: less_induct)
  case less
  show ?case
  proof (cases "x <s 0")
    case False
    then show ?thesis
      by (subst mod_loop.simps) (simp add: word_sless_alt)
  next
    case True
    then have neg: "sint x < 0" by (simp add: word_sless_alt)
    have s: "sint (x + y) = sint x + sint y"
      using neg assms by (rule sint_add_no_wrap)
    have "nat (- sint (x + y)) < nat (- sint x)"
      using neg assms s by simp
    from less [OF this] obtain x' where
      "mod_loop (x + y) y = Some x'" "0 \<le> sint x'" "sint x' mod sint y = sint (x + y) mod sint y"
      by blast
    then show ?thesis
      using True by (subst mod_loop.simps) (simp add: s)
  qed
qed

lemma mod_c_pos:
  fixes x y :: int64_t
  assumes "0 < sint y"
  shows "mod_c x y = ok (word_of_int (sint x mod sint y))"
proof -
  from mod_loop_pos [OF assms, of x] obtain x' where
    l: "mod_loop x y = Some x'" and nn: "0 \<le> sint x'" and eq: "sint x' mod sint y = sint x mod sint y"
    by blast
  have y0: "y \<noteq> 0" using assms by auto
  have "sint x' smod sint y = sint x' mod sint y"
    using nn assms by (simp add: signed_modulo_int_def sgn_if)
  then show ?thesis
    using l y0 eq by (simp add: mod_c_def)
qed

lemma sint_word_of_int_64:
  "- (2 ^ 63) \<le> k \<Longrightarrow> k < 2 ^ 63 \<Longrightarrow> sint (word_of_int k :: int64_t) = k"
  by (simp add: sint_sbintrunc' signed_take_bit_int_eq_self)



lemma hash_formula:
  assumes p: "0 < sint (hp_p hp)" and m: "0 < m" "m \<le> INT_MAX"
  shows "hash hp key m =
           ok ((sint (hp_a hp * prehash key + hp_b hp) mod sint (hp_p hp)) mod m)"
proof -
  let ?X = "sint (hp_a hp * prehash key + hp_b hp)"
  let ?P = "sint (hp_p hp)"
  let ?x = "word_of_int (?X mod ?P) :: int64_t"
  let ?y = "word_of_int m :: int64_t"
  have P63: "?P < 2 ^ 63" using sint_lt [of "hp_p hp"] by simp
  have r1: "0 \<le> ?X mod ?P" "?X mod ?P < ?P" using p by simp_all
  have sx: "sint ?x = ?X mod ?P"
    using r1 P63 by (intro sint_word_of_int_64) auto
  have sy: "sint ?y = m"
    using m by (intro sint_word_of_int_64) (auto simp: INT_MAX_def)
  have r2: "0 \<le> (?X mod ?P) mod m" "(?X mod ?P) mod m < m" using m by simp_all
  have 1: "mod_c (hp_a hp * prehash key + hp_b hp) (hp_p hp) = ok ?x"
    using mod_c_pos [OF p] by simp
  have 2: "mod_c ?x ?y = ok (word_of_int ((?X mod ?P) mod m))"
    using mod_c_pos [of ?y ?x] sy sx m by simp
  have 3: "sint (ucast (word_of_int ((?X mod ?P) mod m) :: int64_t) :: 32 word) = (?X mod ?P) mod m"
  proof -
    let ?v = "(?X mod ?P) mod m"
    have "?v < m" using r2 by simp
    then have "?v < 2 ^ 31" using m(2) by (simp add: INT_MAX_def)
    with r2 have v: "0 \<le> ?v" "?v < 2 ^ 31" by simp_all
    have "uint (word_of_int ?v :: int64_t) = ?v"
      using v by (simp add: unsigned_of_int take_bit_int_eq_self)
    then have "(ucast (word_of_int ?v :: int64_t) :: 32 word) = word_of_int ?v"
      by (simp add: ucast_eq)
    then show ?thesis
      using v by (simp add: sint_sbintrunc' signed_take_bit_int_eq_self)
  qed
  show ?thesis
    by (simp add: hash_def Let_def 1 2 3)
qed

lemma init_hash_p [simp]: "sint (hp_p (init_hash r1 r2)) = 2305843009213693951"
  by (simp add: init_hash_def)

lemma hash_range:
  assumes "0 < m" "m \<le> INT_MAX"
  shows "\<exists>s. hash (init_hash r1 r2) key m = ok s \<and> 0 \<le> s \<and> s < m"
  using hash_formula [of "init_hash r1 r2" m key] assms by simp









subsection \<open>What a returning call did to \<open>m\<close> and \<open>n\<close>\<close>

lemma returnsD: "returns x \<Longrightarrow> \<exists>v. x = ok v"
  by (auto simp: returns_def ok_def split: option.splits sum.splits)

lemma faultD: "fault x = Some e \<Longrightarrow> x = err e"
  by (auto simp: fault_def err_def split: option.splits sum.splits)

lemma resize_fields:
  assumes "resize_hash_table hp junk ht newm = ok ht1"
  shows "ht_m ht1 = newm \<and> ht_n ht1 = ht_n ht"
  using assms by (auto simp: resize_hash_table_def Let_def bind_o_eq_ok split: prod.splits)

lemma grow_fields:
  assumes "grow_hash_table hp junk ht = ok ht1"
  shows "ht_m ht1 = (if ht_m ht = 0 then MIN_TABLE_SIZE else 2 * ht_m ht) \<and> ht_n ht1 = ht_n ht"
  using assms by (auto simp: grow_hash_table_def dest: resize_fields split: if_splits)

lemma shrink_fields:
  assumes "shrink_hash_table hp junk ht = ok ht1"
  shows "ht_m ht1 = (if 2 * MIN_TABLE_SIZE \<le> ht_m ht then ht_m ht sdiv 2 else ht_m ht) \<and> ht_n ht1 = ht_n ht"
  using assms by (auto simp: shrink_hash_table_def dest: resize_fields split: if_splits)

lemma unlink_fields:
  assumes "unlink_node hp ht key n = ok ht'"
  shows "ht_m ht' = ht_m ht \<and> ht_n ht' = ht_n ht - 1"
  using assms
  by (auto simp: unlink_node_def Let_def bind_o_eq_ok split: if_splits option.splits prod.splits)

lemma read_write_same:
  "write_slot t i p = ok t' \<Longrightarrow> read_slot t' i = ok p"
  by (auto simp: write_slot_def read_slot_def split: option.splits if_splits)

lemma link_head_node:
  assumes "(case head of None \<Rightarrow> ok h0
            | Some b \<Rightarrow> bind_o (set_next h0 a (Some b)) (\<lambda>h1. set_prev h1 b (Some a))) = ok h2"
      and "h0 a = Some nd0" and "node_next nd0 = None"
  shows "\<exists>nd. h2 a = Some nd \<and> node_key nd = node_key nd0
            \<and> node_value nd = node_value nd0 \<and> node_next nd = head
            \<and> (case head of None \<Rightarrow> True
                | Some b \<Rightarrow> map_option node_prev (h2 b) = Some (Some a))"
  using assms
  by (cases head)
     (auto simp: set_next_def set_prev_def deref_def bind_o_eq_ok split: option.splits if_splits)

lemma insert_new_key:
  assumes "hash_search_node hp ht key = ok None"
      and "hash_insert hp junk a ht key val = ok ht'"
  shows "\<exists>ht1 slot head nd.
           (if ht_n ht = ht_m ht
            then grow_hash_table hp junk ht = ok ht1
               \<and> ht_m ht1 = (if ht_m ht = 0 then MIN_TABLE_SIZE else 2 * ht_m ht)
            else ht1 = ht)
         \<and> ht_m ht' = ht_m ht1 \<and> ht_n ht' = ht_n ht + 1
         \<and> hash hp key (ht_m ht1) = ok slot
         \<and> read_slot (ht_table ht1) slot = ok head
         \<and> read_slot (ht_table ht') slot = ok (Some a)
         \<and> ht_nodes ht' a = Some nd
         \<and> node_key nd = key \<and> node_value nd = val \<and> node_next nd = head
         \<and> (case head of None \<Rightarrow> True
             | Some b \<Rightarrow> map_option node_prev (ht_nodes ht' b) = Some (Some a))"
proof -
  from assms obtain ht1 slot head h2 t where
    g: "(if ht_n ht = ht_m ht then grow_hash_table hp junk ht else ok ht) = ok ht1" and
    s: "hash hp key (ht_m ht1) = ok slot" and
    r: "read_slot (ht_table ht1) slot = ok head" and
    l: "(case head of None \<Rightarrow> ok (new_hash_node (ht_nodes (ht1\<lparr>ht_n := ht_n ht1 + 1\<rparr>)) a key val)
         | Some b \<Rightarrow> bind_o (set_next (new_hash_node (ht_nodes (ht1\<lparr>ht_n := ht_n ht1 + 1\<rparr>)) a key val) a (Some b))
                        (\<lambda>h1. set_prev h1 b (Some a))) = ok h2" and
    w: "write_slot (ht_table ht1) slot (Some a) = ok t" and
    e: "ht' = ht1\<lparr>ht_n := ht_n ht1 + 1, ht_table := t, ht_nodes := h2\<rparr>"
    by (auto simp: hash_insert_def link_new_node_def Let_def bind_o_eq_ok split: if_splits)
  have g': "(if ht_n ht = ht_m ht
             then grow_hash_table hp junk ht = ok ht1
                \<and> ht_m ht1 = (if ht_m ht = 0 then MIN_TABLE_SIZE else 2 * ht_m ht)
             else ht1 = ht)"
    using g grow_fields [of hp junk ht ht1] by (auto split: if_splits)
  have n1: "ht_n ht1 = ht_n ht"
    using g grow_fields [of hp junk ht ht1] by (auto split: if_splits)
  from link_head_node [OF l] obtain nd where
    nd: "h2 a = Some nd" "node_key nd = key" "node_value nd = val" "node_next nd = head"
        "case head of None \<Rightarrow> True | Some b \<Rightarrow> map_option node_prev (h2 b) = Some (Some a)"
    by (auto simp: new_hash_node_def)
  show ?thesis
    using g' n1 s r read_write_same [OF w] nd e
    by (intro exI [of _ ht1] exI [of _ slot] exI [of _ head] exI [of _ nd])
       (simp cong: option.case_cong)
qed

lemma remove_present_key:
  assumes "hash_search_node hp ht key = ok (Some a)"
      and "hash_remove hp junk ht key = ok ht'"
  shows "\<exists>ht1 n1.
           (if ht_n ht sdiv 4 \<le> ht_m ht
            then shrink_hash_table hp junk ht = ok ht1 \<and> hash_search_node hp ht1 key = ok n1
            else ht1 = ht \<and> n1 = Some a)
         \<and> ht_n ht1 = ht_n ht
         \<and> ht_m ht1 = (if ht_n ht sdiv 4 \<le> ht_m ht \<and> 2 * MIN_TABLE_SIZE \<le> ht_m ht
                        then ht_m ht sdiv 2 else ht_m ht)
         \<and> unlink_node hp ht1 key n1 = ok ht'
         \<and> ht_m ht' = ht_m ht1 \<and> ht_n ht' = ht_n ht - 1"
proof (cases "ht_n ht sdiv 4 \<le> ht_m ht")
  case True
  with assms obtain ht1 n1 where
    s: "shrink_hash_table hp junk ht = ok ht1" and
    f: "hash_search_node hp ht1 key = ok n1" and
    u: "unlink_node hp ht1 key n1 = ok ht'"
    by (auto simp: hash_remove_def bind_o_eq_ok)
  from shrink_fields [OF s] unlink_fields [OF u] s f u True show ?thesis
    by (intro exI [of _ ht1] exI [of _ n1]) simp
next
  case False
  with assms have u: "unlink_node hp ht key (Some a) = ok ht'"
    by (auto simp: hash_remove_def bind_o_eq_ok)
  from unlink_fields [OF u] u False show ?thesis
    by (intro exI [of _ ht] exI [of _ "Some a"]) simp
qed

subsection \<open>Evaluations used below\<close>

lemma read_malloc_slots:
  assumes "0 \<le> s" "s < newm"
  shows "read_slot (malloc_slots junk newm) s
           = (case junk (nat s) of Uninit \<Rightarrow> err UninitRead | Ptr p \<Rightarrow> ok p)"
  using assms by (simp add: read_slot_def malloc_slots_def)

lemma search_node_empty [simp]: "hash_search_node hp new_hash_table key = ok None"
  by (simp add: hash_search_node_def new_hash_table_def)

lemma grow_empty:
  "grow_hash_table hp junk new_hash_table
     = ok (new_hash_table\<lparr>ht_m := MIN_TABLE_SIZE, ht_table := malloc_slots junk MIN_TABLE_SIZE\<rparr>)"
  by (simp add: grow_hash_table_def new_hash_table_def)

lemma resize_empty:
  "resize_hash_table hp junk new_hash_table newm
     = ok (new_hash_table\<lparr>ht_table := malloc_slots junk newm, ht_m := newm\<rparr>)"
  by (simp add: resize_hash_table_def new_hash_table_def Let_def)

lemma insert_empty_uninit:
  "hash_insert (init_hash r1 r2) indeterminate a new_hash_table key val = err UninitRead"
proof -
  obtain s where s: "hash (init_hash r1 r2) key MIN_TABLE_SIZE = ok s" "0 \<le> s" "s < MIN_TABLE_SIZE"
    using hash_range [of MIN_TABLE_SIZE r1 r2 key]
    by (auto simp: MIN_TABLE_SIZE_def INT_MAX_def)
  have r: "read_slot (malloc_slots indeterminate MIN_TABLE_SIZE) s = err UninitRead"
    using s by (simp add: read_malloc_slots indeterminate_def)
  show ?thesis
    by (simp add: hash_insert_def link_new_node_def grow_empty Let_def s r)
       (simp add: new_hash_table_def INT_MAX_def)
qed

lemma hash_a_16: "hash (init_hash 3 7) ''a'' 16 = ok 9"
  by code_simp

lemma insert_empty_zeroed_returns:
  "returns (hash_insert (init_hash 3 7) zeroed 0 new_hash_table ''a'' ''1'')"
  by code_simp

lemma example_search_node: "hash_search_node (init_hash 3 7) example_table ''a'' = ok (Some 0)"
  by code_simp

lemma example_search: "hash_search (init_hash 3 7) example_table ''a'' = ok (example_table, Some ''1'')"
  by (simp add: hash_search_def example_search_node deref_def) (simp add: example_table_def)

lemma example_contains: "hash_contains (init_hash 3 7) example_table ''a'' = ok (example_table, 1)"
  by (simp add: hash_contains_def example_search_node)

lemma example_remove_returns: "returns (hash_remove (init_hash 3 7) zeroed example_table ''a'')"
  by code_simp

lemma example_remove_faults:
  "fault (hash_remove (init_hash 3 7) indeterminate example_table ''a'') = Some UninitRead"
  by code_simp

lemma full_m_n: "bind_o full_table (\<lambda>t. ok (ht_m t, ht_n t)) = ok (16, 16)"
  by code_simp

lemma full_lookup_a: "bind_o full_table (\<lambda>t. lookup (init_hash 3 7) t ''a'') = ok (Some ''1'')"
  by code_simp

lemma full_resize_faults:
  "fault (bind_o full_table (\<lambda>t. resize_hash_table (init_hash 3 7) indeterminate t 32))
     = Some UninitRead"
  by code_simp

lemma full_insert_faults:
  "fault (bind_o full_table (\<lambda>t. hash_insert (init_hash 3 7) indeterminate 16 t ''q'' ''17''))
     = Some UninitRead"
  by code_simp

lemma full_grown_m_n:
  "bind_o full_table (\<lambda>t. bind_o (hash_insert (init_hash 3 7) zeroed 16 t ''q'' ''17'')
      (\<lambda>t'. ok (ht_m t', ht_n t'))) = ok (32, 17)"
  by code_simp

lemma full_shrink_faults:
  "fault (bind_o full_table (\<lambda>t. bind_o (hash_insert (init_hash 3 7) zeroed 16 t ''q'' ''17'')
      (\<lambda>t'. hash_remove (init_hash 3 7) indeterminate t' ''q''))) = Some UninitRead"
  by code_simp




subsection \<open>Growth and shrinking\<close>

text \<open>
  Claim C5.  Removing a key that is in the table runs the shrink check first:
  it compares \<open>n / 4\<close>, with the \<open>n\<close> of before the decrement, against \<open>m\<close>
  and fires when \<open>n / 4 \<le> m\<close>; if it fires, the table is resized to \<open>m / 2\<close>
  when \<open>m \<ge> 2 * MIN_TABLE_SIZE\<close> and left alone otherwise, and the key is
  looked up again; only then is the node unlinked and \<open>n\<close> decremented, in the
  table \<open>ht1\<close> the check left.  When the call returns, \<open>m\<close> and \<open>n\<close> are as
  this says.
\<close>

theorem remove_shrink_policy:
  assumes "hash_search_node hp ht key = ok (Some a)"
  shows "hash_remove hp junk ht key =
           (if ht_n ht sdiv 4 \<le> ht_m ht
            then bind_o (if ht_m ht < MIN_TABLE_SIZE * 2 then ok ht
                         else resize_hash_table hp junk ht (ht_m ht sdiv 2)) (\<lambda>ht1.
                 bind_o (hash_search_node hp ht1 key) (\<lambda>n1.
                 unlink_node hp ht1 key n1))
            else unlink_node hp ht key (Some a))
       \<and> (\<forall>ht'. hash_remove hp junk ht key = ok ht' \<longrightarrow>
            (\<exists>ht1 n1.
               (if ht_n ht sdiv 4 \<le> ht_m ht
                then shrink_hash_table hp junk ht = ok ht1 \<and> hash_search_node hp ht1 key = ok n1
                else ht1 = ht \<and> n1 = Some a)
             \<and> ht_n ht1 = ht_n ht
             \<and> ht_m ht1 = (if ht_n ht sdiv 4 \<le> ht_m ht \<and> 2 * MIN_TABLE_SIZE \<le> ht_m ht
                            then ht_m ht sdiv 2 else ht_m ht)
             \<and> unlink_node hp ht1 key n1 = ok ht'
             \<and> ht_m ht' = ht_m ht1 \<and> ht_n ht' = ht_n ht - 1))"
proof (intro conjI allI impI)
  show "hash_remove hp junk ht key =
           (if ht_n ht sdiv 4 \<le> ht_m ht
            then bind_o (if ht_m ht < MIN_TABLE_SIZE * 2 then ok ht
                         else resize_hash_table hp junk ht (ht_m ht sdiv 2)) (\<lambda>ht1.
                 bind_o (hash_search_node hp ht1 key) (\<lambda>n1.
                 unlink_node hp ht1 key n1))
            else unlink_node hp ht key (Some a))"
    using assms by (simp add: hash_remove_def shrink_hash_table_def)
next
  fix ht' assume "hash_remove hp junk ht key = ok ht'"
  with assms show "\<exists>ht1 n1.
               (if ht_n ht sdiv 4 \<le> ht_m ht
                then shrink_hash_table hp junk ht = ok ht1 \<and> hash_search_node hp ht1 key = ok n1
                else ht1 = ht \<and> n1 = Some a)
             \<and> ht_n ht1 = ht_n ht
             \<and> ht_m ht1 = (if ht_n ht sdiv 4 \<le> ht_m ht \<and> 2 * MIN_TABLE_SIZE \<le> ht_m ht
                            then ht_m ht sdiv 2 else ht_m ht)
             \<and> unlink_node hp ht1 key n1 = ok ht'
             \<and> ht_m ht' = ht_m ht1 \<and> ht_n ht' = ht_n ht - 1"
    by (rule remove_present_key)
qed

theorem remove_shrink_policy_witness:
  "\<exists>t'. hash_search_node (init_hash 3 7) example_table ''a'' = ok (Some 0)
      \<and> hash_remove (init_hash 3 7) zeroed example_table ''a'' = ok t'
      \<and> ht_m example_table = 32 \<and> ht_n example_table = 1
      \<and> ht_m t' = 16 \<and> ht_n t' = 0"
proof -
  from returnsD [OF example_remove_returns] obtain t' where
    r: "hash_remove (init_hash 3 7) zeroed example_table ''a'' = ok t'" by blast
  from remove_shrink_policy [OF example_search_node, of zeroed] r
  have "ht_m t' = 16 \<and> ht_n t' = 0"
    by (auto simp: MIN_TABLE_SIZE_def signed_divide_int_def example_table_def)
  with example_search_node r show ?thesis by (auto simp: example_table_def)
qed

lemma insert_m_cases:
  assumes "hash_insert hp junk a ht key val = ok ht'"
  shows "ht_m ht' = ht_m ht \<or> (ht_m ht = 0 \<and> ht_m ht' = MIN_TABLE_SIZE) \<or> (ht_m ht \<noteq> 0 \<and> ht_m ht' = 2 * ht_m ht)"
proof -
  from assms obtain found where f: "hash_search_node hp ht key = ok found"
    by (auto simp: hash_insert_def bind_o_eq_ok)
  show ?thesis
  proof (cases found)
    case None
    from insert_new_key [OF f [unfolded None] assms] show ?thesis
      by (auto split: if_splits)
  next
    case (Some b)
    with f assms show ?thesis
      by (auto simp: hash_insert_def bind_o_eq_ok)
  qed
qed

lemma remove_m_cases:
  assumes "hash_remove hp junk ht key = ok ht'"
  shows "ht_m ht' = ht_m ht \<or> (2 * MIN_TABLE_SIZE \<le> ht_m ht \<and> ht_m ht' = ht_m ht sdiv 2)"
proof -
  from assms obtain found where f: "hash_search_node hp ht key = ok found"
    by (auto simp: hash_remove_def bind_o_eq_ok)
  show ?thesis
  proof (cases found)
    case None
    with f assms show ?thesis by (simp add: hash_remove_def)
  next
    case (Some b)
    from remove_present_key [OF f [unfolded Some] assms] show ?thesis
      by (auto split: if_splits)
  qed
qed

text \<open>
  Claim C6.  In every table reachable from the empty table by returning calls of
  \<^verbatim>\<open>hash_insert\<close> and \<^verbatim>\<open>hash_remove\<close>, \<open>m\<close> is 0 or at least
  \<^verbatim>\<open>MIN_TABLE_SIZE\<close>.
\<close>

theorem floor_invariant:
  assumes "reachable hp ht"
  shows "ht_m ht = 0 \<or> MIN_TABLE_SIZE \<le> ht_m ht"
  using assms
proof (induction rule: reachable.induct)
  case reach_new
  show ?case by (simp add: new_hash_table_def)
next
  case (reach_insert ht junk a key val ht')
  from insert_m_cases [OF reach_insert.hyps(2)] reach_insert.IH show ?case
    by (auto simp: MIN_TABLE_SIZE_def)
next
  case (reach_remove ht junk key ht')
  from remove_m_cases [OF reach_remove.hyps(2)] reach_remove.IH show ?case
    by (auto simp: MIN_TABLE_SIZE_def signed_divide_int_def sgn_if)
qed

theorem floor_invariant_witness:
  "\<exists>t. hash_insert (init_hash 3 7) zeroed 0 new_hash_table ''a'' ''1'' = ok t
      \<and> reachable (init_hash 3 7) t \<and> (ht_m t = 0 \<or> MIN_TABLE_SIZE \<le> ht_m t)"
proof -
  from returnsD [OF insert_empty_zeroed_returns] obtain t where
    i: "hash_insert (init_hash 3 7) zeroed 0 new_hash_table ''a'' ''1'' = ok t" by blast
  have r: "reachable (init_hash 3 7) t"
    by (rule reach_insert [OF reach_new i])
  from floor_invariant [OF r] i r show ?thesis by blast
qed

subsection \<open>What a returning insertion guarantees\<close>

lemma same_links_deref:
  assumes "same_links h h'"
  shows "(h x = None \<longrightarrow> h' x = None)
       \<and> (\<forall>nd. h x = Some nd \<longrightarrow> (\<exists>nd'. h' x = Some nd' \<and> node_key nd' = node_key nd \<and> node_next nd' = node_next nd))"
proof -
  from assms have k: "map_option node_key (h' x) = map_option node_key (h x)"
    and n: "map_option node_next (h' x) = map_option node_next (h x)"
    by (simp_all add: same_links_def)
  show ?thesis using k n by (cases "h x"; cases "h' x") auto
qed

lemma search_list_same_links:
  assumes "search_list h key p = Some y" and "same_links h h'"
  shows "search_list h' key p = Some y"
proof -
  have "\<forall>h'. same_links h h' \<longrightarrow> search_list h' key p = Some y"
  proof (rule search_list.raw_induct
      [where P = "\<lambda>h key p y. \<forall>h'. same_links h h' \<longrightarrow> search_list h' key p = Some y",
        OF _ assms(1)])
    fix f :: "heap \<Rightarrow> string \<Rightarrow> addr option \<Rightarrow> addr option outcome"
    fix h key n y
    assume 1: "\<And>h key n y. f h key n = Some y
                 \<Longrightarrow> \<forall>h'. same_links h h' \<longrightarrow> search_list h' key n = Some y"
      "(case n of None \<Rightarrow> ok None
        | Some a \<Rightarrow> bind_o (deref h a) (\<lambda>nd. if node_key nd = key then ok (Some a)
                                          else f h key (node_next nd))) = Some y"
    show "\<forall>h'. same_links h h' \<longrightarrow> search_list h' key n = Some y"
    proof (intro allI impI)
      fix h' assume sl: "same_links h h'"
      show "search_list h' key n = Some y"
      proof (cases n)
        case None
        with 1(2) show ?thesis by (subst search_list.simps) simp
      next
        case (Some a)
        note d = same_links_deref [OF sl, of a]
        show ?thesis
        proof (cases "h a")
          case None
          with d have "h' a = None" by simp
          with None Some 1(2) show ?thesis
            by (subst search_list.simps) (simp add: deref_def)
        next
          case (Some nd)
          with d obtain nd' where nd': "h' a = Some nd'" "node_key nd' = node_key nd"
            "node_next nd' = node_next nd" by blast
          show ?thesis
          proof (cases "node_key nd = key")
            case True
            with Some \<open>n = Some a\<close> nd' 1(2) show ?thesis
              by (subst search_list.simps) (simp add: deref_def ok_def)
          next
            case False
            with Some \<open>n = Some a\<close> 1(2) have "f h key (node_next nd) = Some y"
              by (simp add: deref_def)
            from 1(1) [OF this] sl have "search_list h' key (node_next nd) = Some y" by blast
            with False Some \<open>n = Some a\<close> nd' show ?thesis
              by (subst search_list.simps) (simp add: deref_def)
          qed
        qed
      qed
    qed
  qed
  with assms(2) show ?thesis by blast
qed

lemma hash_zero_not_ok: "hash hp key 0 \<noteq> ok s"
  by (auto simp: hash_def Let_def mod_c_def bind_o_eq_ok split: option.splits if_splits)

lemma search_list_head:
  assumes "h a = Some nd" "node_key nd = key"
  shows "search_list h key (Some a) = ok (Some a)"
  using assms by (subst search_list.simps) (simp add: deref_def)

lemma search_node_live:
  assumes "hash_search_node hp ht key = ok (Some f)"
  shows "\<exists>nd. ht_nodes ht f = Some nd \<and> node_key nd = key"
proof -
  from assms obtain p where "search_list (ht_nodes ht) key p = ok (Some f)"
    by (auto simp: hash_search_node_def bind_o_eq_ok split: if_splits)
  then have r: "search_list (ht_nodes ht) key p = Some (Inr (Some f))" by (simp add: ok_def)
  have "(Inr (Some f) :: error + addr option) = Inr (Some f)
          \<longrightarrow> (\<exists>nd. ht_nodes ht f = Some nd \<and> node_key nd = key)"
  proof (rule search_list.raw_induct
      [where P = "\<lambda>h key p y. y = Inr (Some f) \<longrightarrow> (\<exists>nd. h f = Some nd \<and> node_key nd = key)",
        OF _ r])
    fix sl :: "heap \<Rightarrow> string \<Rightarrow> addr option \<Rightarrow> addr option outcome"
    fix h key n y
    assume "\<And>h key n y. sl h key n = Some y
                 \<Longrightarrow> y = Inr (Some f) \<longrightarrow> (\<exists>nd. h f = Some nd \<and> node_key nd = key)"
      "(case n of None \<Rightarrow> ok None
        | Some a \<Rightarrow> bind_o (deref h a) (\<lambda>nd. if node_key nd = key then ok (Some a)
                                          else sl h key (node_next nd))) = Some y"
    then show "y = Inr (Some f) \<longrightarrow> (\<exists>nd. h f = Some nd \<and> node_key nd = key)"
      by (auto simp: bind_o_def deref_def ok_def err_def split: option.splits sum.splits if_splits)
  qed
  then show ?thesis by simp
qed

text \<open>After a returning insert the key is found, with the value inserted.\<close>

lemma insert_then_search_node:
  assumes "hash_insert hp junk a ht key val = ok ht'"
  shows "\<exists>f nd. hash_search_node hp ht' key = ok (Some f) \<and> ht_nodes ht' f = Some nd
            \<and> node_key nd = key \<and> node_value nd = val"
proof -
  from assms obtain found where f: "hash_search_node hp ht key = ok found"
    by (auto simp: hash_insert_def bind_o_eq_ok)
  show ?thesis
  proof (cases found)
    case None
    from insert_new_key [OF f [unfolded None] assms] obtain ht1 :: hasht_t and slot head nd where
      "ht_m ht' = ht_m ht1 \<and> ht_n ht' = ht_n ht + 1
         \<and> hash hp key (ht_m ht1) = ok slot
         \<and> read_slot (ht_table ht1) slot = ok head
         \<and> read_slot (ht_table ht') slot = ok (Some a)
         \<and> ht_nodes ht' a = Some nd
         \<and> node_key nd = key \<and> node_value nd = val \<and> node_next nd = head"
      by blast
    then have
      m: "ht_m ht' = ht_m ht1" and
      s: "hash hp key (ht_m ht1) = ok slot" and
      r: "read_slot (ht_table ht') slot = ok (Some a)" and
      nd: "ht_nodes ht' a = Some nd" "node_key nd = key" "node_value nd = val"
      by simp_all
    have m0: "ht_m ht' \<noteq> 0" using s m hash_zero_not_ok [of hp key slot] by auto
    have "hash_search_node hp ht' key = ok (Some a)"
      using m0 s m r search_list_head [of "ht_nodes ht'" a nd key] nd
      by (simp add: hash_search_node_def)
    with nd show ?thesis by blast
  next
    case (Some b)
    from search_node_live [OF f [unfolded Some]] obtain nd where
      nd: "ht_nodes ht b = Some nd" "node_key nd = key" by blast
    let ?h' = "(ht_nodes ht)(b \<mapsto> nd\<lparr>node_value := val\<rparr>)"
    from assms f Some nd have e: "ht' = ht\<lparr>ht_nodes := ?h'\<rparr>"
      by (auto simp: hash_insert_def set_value_def deref_def bind_o_eq_ok)
    have sl: "same_links (ht_nodes ht) ?h'"
      using nd by (simp add: same_links_def)
    from f Some have m0: "ht_m ht \<noteq> 0"
      by (auto simp: hash_search_node_def split: if_splits)
    from f Some m0 obtain slot head where
      s: "hash hp key (ht_m ht) = ok slot" "read_slot (ht_table ht) slot = ok head"
         "search_list (ht_nodes ht) key head = ok (Some b)"
      by (auto simp: hash_search_node_def bind_o_eq_ok)
    from search_list_same_links [OF s(3) [unfolded ok_def] sl]
    have "search_list ?h' key head = ok (Some b)" by (simp add: ok_def)
    then have "hash_search_node hp ht' key = ok (Some b)"
      using m0 s e by (simp add: hash_search_node_def)
    moreover have "ht_nodes ht' b = Some (nd\<lparr>node_value := val\<rparr>)" using e by simp
    ultimately show ?thesis using nd by auto
  qed
qed

lemma insert_then_search:
  assumes "hash_insert hp junk a ht key val = ok ht'"
  shows "hash_search hp ht' key = ok (ht', Some val)"
  using insert_then_search_node [OF assms]
  by (auto simp: hash_search_def deref_def)

lemma insert_then_contains:
  assumes "hash_insert hp junk a ht key val = ok ht'"
  shows "hash_contains hp ht' key = ok (ht', 1)"
  using insert_then_search_node [OF assms]
  by (auto simp: hash_contains_def)

text \<open>A second insert of the same key returns, replaces the value and keeps \<open>n\<close>.\<close>

lemma insert_twice:
  assumes "hash_insert hp junk a ht key v1 = ok t1"
  shows "\<exists>t2. hash_insert hp junk' a' t1 key v2 = ok t2 \<and> ht_n t2 = ht_n t1 \<and> ht_m t2 = ht_m t1
            \<and> hash_search hp t2 key = ok (t2, Some v2)"
proof -
  from insert_then_search_node [OF assms] obtain f nd where
    f: "hash_search_node hp t1 key = ok (Some f)" "ht_nodes t1 f = Some nd" by blast
  then have i: "hash_insert hp junk' a' t1 key v2
      = ok (t1\<lparr>ht_nodes := (ht_nodes t1)(f \<mapsto> nd\<lparr>node_value := v2\<rparr>)\<rparr>)"
    by (simp add: hash_insert_def set_value_def deref_def)
  from insert_then_search [OF i] i show ?thesis by simp
qed

subsection \<open>Well-formed tables and zero arrays\<close>

lemma chain_cong:
  "(\<And>x. x \<in> set as \<Longrightarrow> h' x = h x) \<Longrightarrow> chain h' p pv as = chain h p pv as"
proof (induction as arbitrary: p pv)
  case Nil
  show ?case by simp
next
  case (Cons a as)
  have a: "h' a = h a" using Cons.prems by simp
  have "\<And>q r. chain h' q r as = chain h q r as"
    using Cons.prems by (intro Cons.IH) simp
  then show ?case by (simp add: a split: option.splits)
qed

lemma chain_live: "chain h p pv as \<Longrightarrow> a \<in> set as \<Longrightarrow> \<exists>nd. h a = Some nd"
  by (induction as arbitrary: p pv) (auto split: option.splits)

lemma chain_head: "chain h p pv as \<Longrightarrow> p = (case as of [] \<Rightarrow> None | a # _ \<Rightarrow> Some a)"
  by (cases as) auto

text \<open>On a well-formed chain the search loop ends, at the first node with the key.\<close>

lemma search_list_chain:
  "chain h p pv as \<Longrightarrow> search_list h key p = ok (find (\<lambda>a. key_of h a = Some key) as)"
proof (induction as arbitrary: p pv)
  case Nil
  then show ?case by (subst search_list.simps) simp
next
  case (Cons a as)
  from Cons.prems obtain nd where
    nd: "p = Some a" "h a = Some nd" "chain h (node_next nd) (Some a) as"
    by (auto split: option.splits)
  from Cons.IH [OF nd(3)] nd(1,2) show ?case
    by (subst search_list.simps) (simp add: deref_def key_of_def)
qed

lemma hash_in_range:
  assumes "params_ok hp" "0 < m" "m \<le> INT_MAX"
  shows "\<exists>s. hash hp key m = ok s \<and> 0 \<le> s \<and> s < m"
  using hash_formula [of hp m key] assms by (simp add: params_ok_def)

lemma bucket_unique:
  assumes "buckets_inv hp m h t B" "i < nat m" "j < nat m" "a \<in> set (B i)" "a \<in> set (B j)"
  shows "i = j"
proof -
  from assms obtain k where "key_of h a = Some k" "hash hp k m = ok (int i)"
    unfolding buckets_inv_def by blast
  moreover from assms obtain k' where "key_of h a = Some k'" "hash hp k' m = ok (int j)"
    unfolding buckets_inv_def by blast
  ultimately show ?thesis by simp
qed

lemma all_nodesI: "i < nat m \<Longrightarrow> a \<in> set (B i) \<Longrightarrow> a \<in> all_nodes m B"
  by (auto simp: all_nodes_def)

lemma all_nodesE: "a \<in> all_nodes m B \<Longrightarrow> \<exists>i<nat m. a \<in> set (B i)"
  by (auto simp: all_nodes_def)

text \<open>
  What \<^verbatim>\<open>hash_search_node\<close> returns on a well-formed table: the one node
  with the key, or null if there is none.
\<close>

lemma search_node_spec:
  assumes ok: "params_ok hp" and m: "0 \<le> ht_m ht" "ht_m ht \<le> INT_MAX"
      and inv: "buckets_inv hp (ht_m ht) (ht_nodes ht) (ht_table ht) B"
  shows "\<exists>r. hash_search_node hp ht key = ok r \<and>
           (case r of
              None \<Rightarrow> \<forall>a\<in>all_nodes (ht_m ht) B. key_of (ht_nodes ht) a \<noteq> Some key
            | Some a \<Rightarrow> a \<in> all_nodes (ht_m ht) B \<and> key_of (ht_nodes ht) a = Some key)"
proof (cases "ht_m ht = 0")
  case True
  then show ?thesis by (simp add: hash_search_node_def all_nodes_def)
next
  case False
  with m have mpos: "0 < ht_m ht" by simp
  from hash_in_range [OF ok mpos m(2)] obtain s where
    s: "hash hp key (ht_m ht) = ok s" "0 \<le> s" "s < ht_m ht" by blast
  then have sn: "nat s < nat (ht_m ht)" by simp
  from inv sn obtain p where
    p: "read_slot (ht_table ht) (int (nat s)) = ok p" "chain (ht_nodes ht) p None (B (nat s))"
    unfolding buckets_inv_def by blast
  let ?P = "\<lambda>a. key_of (ht_nodes ht) a = Some key"
  have r: "hash_search_node hp ht key = ok (find ?P (B (nat s)))"
    using False s p search_list_chain [OF p(2), of key] by (simp add: hash_search_node_def)
  show ?thesis
  proof (cases "find ?P (B (nat s))")
    case None
    have "\<forall>a\<in>all_nodes (ht_m ht) B. \<not> ?P a"
    proof
      fix a assume "a \<in> all_nodes (ht_m ht) B"
      then obtain i where i: "i < nat (ht_m ht)" "a \<in> set (B i)" by (auto dest: all_nodesE)
      show "\<not> ?P a"
      proof
        assume pa: "?P a"
        from inv i obtain k where "key_of (ht_nodes ht) a = Some k" "hash hp k (ht_m ht) = ok (int i)"
          unfolding buckets_inv_def by blast
        with pa s have "int i = s" by simp
        with i have "a \<in> set (B (nat s))" by auto
        with None pa show False by (auto simp: find_None_iff)
      qed
    qed
    with r None show ?thesis by simp
  next
    case (Some a)
    then have a: "a \<in> set (B (nat s))" "?P a"
      by (auto simp: find_Some_iff)
    from all_nodesI [of "nat s" "ht_m ht" a B] sn a r Some show ?thesis by simp
  qed
qed

lemma read_write_other:
  "write_slot t i p = ok t' \<Longrightarrow> j \<noteq> i \<Longrightarrow> read_slot t' j = read_slot t j"
  by (auto simp: write_slot_def read_slot_def nat_eq_iff split: option.splits if_splits)

lemma write_slot_ok:
  "read_slot t i = ok q \<Longrightarrow> \<exists>t'. write_slot t i p = ok t'"
  by (auto simp: write_slot_def read_slot_def split: option.splits if_splits)

lemma all_nodes_upd:
  "i < nat m \<Longrightarrow> all_nodes m (B(i := a # B i)) = insert a (all_nodes m B)"
  by (auto simp: all_nodes_def split: if_splits)

lemma push_inv:
  assumes inv: "buckets_inv hp m h t B"
      and i: "i < nat m"
      and s: "hash hp (node_key nd) m = ok (int i)"
      and a: "a \<notin> all_nodes m B"
      and fresh: "\<forall>x\<in>all_nodes m B. key_of h x \<noteq> Some (node_key nd)"
      and rd: "read_slot t (int i) = ok q"
      and wr: "write_slot t (int i) (Some a) = ok t'"
  shows "buckets_inv hp m (pushed h a nd q) t' (B(i := a # B i))"
proof -
  let ?h = "pushed h a nd q"
  let ?B = "B(i := a # B i)"
  from inv i rd have ch: "chain h q None (B i)"
    unfolding buckets_inv_def by fastforce
  have dist: "distinct (B i)" using inv i unfolding buckets_inv_def by blast
  have ai: "a \<notin> set (B i)" using a i by (auto simp: all_nodes_def)
  have qb: "\<And>b. q = Some b \<Longrightarrow> b \<in> set (B i) \<and> b \<noteq> a \<and> h b \<noteq> None"
  proof -
    fix b assume "q = Some b"
    with ch have "b \<in> set (B i)" by (cases "B i") auto
    with ai chain_live [OF ch] show "b \<in> set (B i) \<and> b \<noteq> a \<and> h b \<noteq> None" by auto
  qed
  have ha: "?h a = Some (nd\<lparr>node_prev := None, node_next := q\<rparr>)"
    using qb by (cases q) (auto simp: pushed_def)
  have other: "\<And>x. x \<noteq> a \<Longrightarrow> q \<noteq> Some x \<Longrightarrow> ?h x = h x"
    by (cases q) (auto simp: pushed_def)
  have keys: "\<And>x. x \<noteq> a \<Longrightarrow> key_of ?h x = key_of h x"
    using qb by (cases q) (auto simp: pushed_def key_of_def)
  have keya: "key_of ?h a = Some (node_key nd)"
    using ha by (simp add: key_of_def)
  have c1: "\<forall>j<nat m. \<exists>p. read_slot t' (int j) = ok p \<and> chain ?h p None (?B j)"
  proof (intro allI impI)
    fix j assume j: "j < nat m"
    show "\<exists>p. read_slot t' (int j) = ok p \<and> chain ?h p None (?B j)"
    proof (cases "j = i")
      case True
      have "chain ?h q (Some a) (B i)"
      proof (cases "B i")
        case Nil
        with ch show ?thesis by simp
      next
        case (Cons b rest)
        with ch obtain ndb where b: "q = Some b" "h b = Some ndb" "node_prev ndb = None"
          "chain h (node_next ndb) (Some b) rest"
          by (auto split: option.splits)
        have ba: "b \<noteq> a" using qb [OF b(1)] by simp
        have hb: "?h b = Some (ndb\<lparr>node_prev := Some a\<rparr>)"
          using b ba by (simp add: pushed_def)
        have "chain ?h (node_next ndb) (Some b) rest = chain h (node_next ndb) (Some b) rest"
        proof (rule chain_cong)
          fix x assume "x \<in> set rest"
          with Cons dist ai have "x \<noteq> a" "x \<noteq> b" by auto
          with b(1) show "?h x = h x" by (intro other) auto
        qed
        with b hb Cons show ?thesis by simp
      qed
      with ha True read_write_same [OF wr] show ?thesis by simp
    next
      case False
      from inv j obtain p where p: "read_slot t (int j) = ok p" "chain h p None (B j)"
        unfolding buckets_inv_def by blast
      have "chain ?h p None (B j) = chain h p None (B j)"
      proof (rule chain_cong)
        fix x assume x: "x \<in> set (B j)"
        with a j have "x \<noteq> a" by (auto simp: all_nodes_def)
        moreover have "q \<noteq> Some x"
        proof
          assume "q = Some x"
          from qb [OF this] have "x \<in> set (B i)" by simp
          from bucket_unique [OF inv j i x this] False show False by simp
        qed
        ultimately show "?h x = h x" by (rule other)
      qed
      with p False read_write_other [OF wr, of "int j"] show ?thesis by simp
    qed
  qed
  have c2: "\<forall>j<nat m. \<forall>x\<in>set (?B j). \<exists>k. key_of ?h x = Some k \<and> hash hp k m = ok (int j)"
  proof (intro allI impI ballI)
    fix j x assume j: "j < nat m" and x: "x \<in> set (?B j)"
    show "\<exists>k. key_of ?h x = Some k \<and> hash hp k m = ok (int j)"
    proof (cases "x = a")
      case True
      with x a j have "j = i" by (auto simp: all_nodes_def split: if_splits)
      with True keya s show ?thesis by simp
    next
      case False
      with x have "x \<in> set (B j)" by (auto split: if_splits)
      with inv j obtain k where "key_of h x = Some k" "hash hp k m = ok (int j)"
        unfolding buckets_inv_def by blast
      with keys [OF False] show ?thesis by simp
    qed
  qed
  have c3: "\<forall>j<nat m. distinct (?B j)"
    using inv dist ai unfolding buckets_inv_def by auto
  have c4: "inj_on (key_of ?h) (all_nodes m ?B)"
  proof -
    have inj: "inj_on (key_of h) (all_nodes m B)" using inv unfolding buckets_inv_def by blast
    have "inj_on (key_of ?h) (all_nodes m B) = inj_on (key_of h) (all_nodes m B)"
    proof (rule inj_on_cong)
      fix x assume "x \<in> all_nodes m B"
      with a have "x \<noteq> a" by blast
      then show "key_of ?h x = key_of h x" by (rule keys)
    qed
    with inj have "inj_on (key_of ?h) (all_nodes m B)" by simp
    moreover have "key_of ?h a \<notin> key_of ?h ` (all_nodes m B - {a})"
    proof
      assume "key_of ?h a \<in> key_of ?h ` (all_nodes m B - {a})"
      then obtain x where x: "x \<in> all_nodes m B" "x \<noteq> a" "key_of ?h a = key_of ?h x" by blast
      with keys [OF x(2)] keya fresh show False by auto
    qed
    ultimately show ?thesis
      using i by (simp add: all_nodes_upd)
  qed
  from c1 c2 c3 c4 show ?thesis unfolding buckets_inv_def by blast
qed

lemma buckets_inv_slot:
  "buckets_inv hp m h t B \<Longrightarrow> i < nat m \<Longrightarrow> \<exists>p. read_slot t (int i) = ok p \<and> chain h p None (B i)"
  by (simp add: buckets_inv_def)

lemma buckets_inv_key:
  "buckets_inv hp m h t B \<Longrightarrow> i < nat m \<Longrightarrow> a \<in> set (B i)
     \<Longrightarrow> \<exists>k. key_of h a = Some k \<and> hash hp k m = ok (int i)"
  by (simp add: buckets_inv_def)

lemma buckets_inv_distinct:
  "buckets_inv hp m h t B \<Longrightarrow> i < nat m \<Longrightarrow> distinct (B i)"
  by (simp add: buckets_inv_def)

lemma buckets_inv_inj:
  "buckets_inv hp m h t B \<Longrightarrow> inj_on (key_of h) (all_nodes m B)"
  by (simp add: buckets_inv_def)

lemma pushed_other: "x \<noteq> a \<Longrightarrow> q \<noteq> Some x \<Longrightarrow> pushed h a nd q x = h x"
  by (cases q) (auto simp: pushed_def)

lemma pushed_key_val:
  assumes "h a = Some nd" "\<forall>b. q = Some b \<longrightarrow> h b \<noteq> None"
  shows "key_of (pushed h a nd q) x = key_of h x \<and> val_of (pushed h a nd q) x = val_of h x"
  using assms by (cases q) (auto simp: pushed_def key_of_def val_of_def)

lemma rehash_list_step:
  assumes a: "h a = Some nd"
      and s: "hash hp (node_key nd) newm = ok s"
      and rd: "read_slot t s = ok q"
      and wr: "write_slot t s (Some a) = ok t'"
      and q: "\<forall>b. q = Some b \<longrightarrow> b \<noteq> a \<and> h b \<noteq> None"
  shows "rehash_list hp newm h t (Some a) = rehash_list hp newm (pushed h a nd q) t' (node_next nd)"
proof -
  have heap: "(case q of None \<Rightarrow> ok (h(a \<mapsto> nd\<lparr>node_prev := None, node_next := None\<rparr>))
         | Some b \<Rightarrow> bind_o (set_prev (h(a \<mapsto> nd\<lparr>node_prev := None, node_next := None\<rparr>)) b (Some a))
                       (\<lambda>h3. set_next h3 a (Some b))) = ok (pushed h a nd q)"
  proof (cases q)
    case None
    then show ?thesis by (simp add: pushed_def)
  next
    case (Some b)
    with q obtain ndb where b: "b \<noteq> a" "h b = Some ndb" by auto
    have "(h(a \<mapsto> nd\<lparr>node_prev := None, node_next := None\<rparr>,
             b \<mapsto> ndb\<lparr>node_prev := Some a\<rparr>,
             a \<mapsto> nd\<lparr>node_prev := None, node_next := Some b\<rparr>))
          = pushed h a nd (Some b)"
      using b by (auto simp: pushed_def fun_eq_iff)
    with Some b show ?thesis
      by (simp add: set_prev_def set_next_def deref_def)
  qed
  have "rehash_list hp newm h t (Some a) =
          bind_o (deref h a) (\<lambda>nd.
          let next = node_next nd in
          bind_o (hash hp (node_key nd) newm) (\<lambda>slot.
          bind_o (set_prev h a None) (\<lambda>h1.
          bind_o (set_next h1 a None) (\<lambda>h2.
          bind_o (read_slot t slot) (\<lambda>head.
          bind_o (case head of
                    None \<Rightarrow> ok h2
                  | Some b \<Rightarrow> bind_o (set_prev h2 b (Some a)) (\<lambda>h3. set_next h3 a (Some b))) (\<lambda>h4.
          bind_o (write_slot t slot (Some a)) (\<lambda>t'.
          rehash_list hp newm h4 t' next)))))))"
    by (subst rehash_list.simps) simp
  also have "\<dots> = rehash_list hp newm (pushed h a nd q) t' (node_next nd)"
    using a s rd wr heap by (simp add: deref_def set_prev_def set_next_def)
  finally show ?thesis .
qed

lemma rehash_list_inv:
  assumes ok: "params_ok hp" and nm: "0 < newm" "newm \<le> INT_MAX"
  shows "buckets_inv hp newm h t C \<Longrightarrow> chain h p pv as \<Longrightarrow> distinct as
         \<Longrightarrow> set as \<inter> all_nodes newm C = {}
         \<Longrightarrow> inj_on (key_of h) (all_nodes newm C \<union> set as)
         \<Longrightarrow> \<exists>h' t' C'. rehash_list hp newm h t p = ok (h', t')
               \<and> buckets_inv hp newm h' t' C'
               \<and> all_nodes newm C' = all_nodes newm C \<union> set as
               \<and> (\<forall>x. x \<notin> all_nodes newm C \<union> set as \<longrightarrow> h' x = h x)
               \<and> (\<forall>x. key_of h' x = key_of h x \<and> val_of h' x = val_of h x)"
proof (induction as arbitrary: h t C p pv)
  case Nil
  then have "p = None" by simp
  then have "rehash_list hp newm h t p = ok (h, t)"
    by (subst rehash_list.simps) simp
  then show ?case
    using Nil.prems(1) by (intro exI [of _ h] exI [of _ t] exI [of _ C]) simp
next
  case (Cons a rest)
  note inv = Cons.prems(1)
  from Cons.prems(2) obtain nd where
    nd: "p = Some a" "h a = Some nd" "chain h (node_next nd) (Some a) rest"
    by (auto split: option.splits)
  from hash_in_range [OF ok nm] obtain s where
    s: "hash hp (node_key nd) newm = ok s" "0 \<le> s" "s < newm" by blast
  define i where "i = nat s"
  have i: "i < nat newm" "int i = s" using s by (simp_all add: i_def)
  from buckets_inv_slot [OF inv i(1)] i(2) obtain q where
    q: "read_slot t s = ok q" "chain h q None (C i)" by auto
  from write_slot_ok [OF q(1)] obtain t' where wr: "write_slot t s (Some a) = ok t'" by blast
  have anew: "a \<notin> all_nodes newm C" using Cons.prems(4) by auto
  have qin: "\<And>b. q = Some b \<Longrightarrow> b \<in> all_nodes newm C \<and> b \<noteq> a \<and> h b \<noteq> None"
  proof -
    fix b assume "q = Some b"
    with q(2) have "b \<in> set (C i)" by (cases "C i") auto
    with chain_live [OF q(2)] i(1) anew show "b \<in> all_nodes newm C \<and> b \<noteq> a \<and> h b \<noteq> None"
      by (auto simp: all_nodes_def)
  qed
  have ka: "key_of h a = Some (node_key nd)" using nd(2) by (simp add: key_of_def)
  have fresh: "\<forall>x\<in>all_nodes newm C. key_of h x \<noteq> Some (node_key nd)"
  proof
    fix x assume x: "x \<in> all_nodes newm C"
    with anew have "x \<noteq> a" by blast
    with Cons.prems(5) x have "key_of h x \<noteq> key_of h a"
      by (auto simp: inj_on_def)
    with ka show "key_of h x \<noteq> Some (node_key nd)" by simp
  qed
  let ?h = "pushed h a nd q"
  let ?C = "C(i := a # C i)"
  have inv': "buckets_inv hp newm ?h t' ?C"
    using push_inv [OF inv i(1) _ anew fresh] s(1) q(1) wr i(2) by simp
  have step: "rehash_list hp newm h t p = rehash_list hp newm ?h t' (node_next nd)"
    unfolding nd(1) using nd(2) s(1) q(1) wr qin by (intro rehash_list_step) auto
  have nodes': "all_nodes newm ?C = insert a (all_nodes newm C)"
    using i(1) by (rule all_nodes_upd)
  have kv: "\<And>x. key_of ?h x = key_of h x \<and> val_of ?h x = val_of h x"
    using nd(2) qin by (intro pushed_key_val) auto
  have untouched: "\<And>x. x \<noteq> a \<Longrightarrow> x \<notin> all_nodes newm C \<Longrightarrow> ?h x = h x"
    using qin by (intro pushed_other) auto
  have ch': "chain ?h (node_next nd) (Some a) rest"
  proof -
    have "chain ?h (node_next nd) (Some a) rest = chain h (node_next nd) (Some a) rest"
    proof (rule chain_cong)
      fix x assume "x \<in> set rest"
      with Cons.prems(3,4) have "x \<noteq> a" "x \<notin> all_nodes newm C" by auto
      then show "?h x = h x" by (rule untouched)
    qed
    with nd(3) show ?thesis by simp
  qed
  have d': "distinct rest" using Cons.prems(3) by simp
  have disj': "set rest \<inter> all_nodes newm ?C = {}"
    using Cons.prems(3,4) nodes' by auto
  have inj': "inj_on (key_of ?h) (all_nodes newm ?C \<union> set rest)"
  proof -
    have "all_nodes newm ?C \<union> set rest = all_nodes newm C \<union> set (a # rest)"
      using nodes' by auto
    moreover have "inj_on (key_of ?h) (all_nodes newm C \<union> set (a # rest))
                 = inj_on (key_of h) (all_nodes newm C \<union> set (a # rest))"
      by (rule inj_on_cong) (simp add: kv)
    ultimately show ?thesis using Cons.prems(5) by simp
  qed
  from Cons.IH [OF inv' ch' d' disj' inj'] obtain h' t'' C' where
    r0: "rehash_list hp newm ?h t' (node_next nd) = ok (h', t'')
       \<and> buckets_inv hp newm h' t'' C'
       \<and> all_nodes newm C' = all_nodes newm ?C \<union> set rest
       \<and> (\<forall>x. x \<notin> all_nodes newm ?C \<union> set rest \<longrightarrow> h' x = ?h x)
       \<and> (\<forall>x. key_of h' x = key_of ?h x \<and> val_of h' x = val_of ?h x)"
    by (elim exE)
  then have
    r: "rehash_list hp newm ?h t' (node_next nd) = ok (h', t'')"
       "buckets_inv hp newm h' t'' C'"
       "all_nodes newm C' = all_nodes newm ?C \<union> set rest"
       "\<forall>x. x \<notin> all_nodes newm ?C \<union> set rest \<longrightarrow> h' x = ?h x"
       "\<forall>x. key_of h' x = key_of ?h x \<and> val_of h' x = val_of ?h x"
    by blast+
  have 1: "rehash_list hp newm h t p = ok (h', t'')" using step r(1) by simp
  have 2: "all_nodes newm C' = all_nodes newm C \<union> set (a # rest)"
    using r(3) nodes' by auto
  have 3: "\<forall>x. x \<notin> all_nodes newm C \<union> set (a # rest) \<longrightarrow> h' x = h x"
  proof (intro allI impI)
    fix x assume x: "x \<notin> all_nodes newm C \<union> set (a # rest)"
    then have "x \<notin> all_nodes newm ?C \<union> set rest" using nodes' by auto
    with r(4) have "h' x = ?h x" by blast
    also have "\<dots> = h x" using x by (intro untouched) auto
    finally show "h' x = h x" .
  qed
  have 4: "\<forall>x. key_of h' x = key_of h x \<and> val_of h' x = val_of h x"
    using r(5) kv by simp
  show ?case
    using 1 r(2) 2 3 4 by (intro exI [of _ h'] exI [of _ t''] exI [of _ C'] conjI)
qed

lemma rehash_slots_inv:
  assumes ok: "params_ok hp" and nm: "0 < newm" "newm \<le> INT_MAX"
  shows "buckets_inv hp newm h t C \<Longrightarrow> distinct ls
         \<Longrightarrow> (\<forall>l\<in>set ls. \<exists>p. read_slot old (int l) = ok p \<and> chain h p None (B l))
         \<Longrightarrow> (\<forall>l\<in>set ls. distinct (B l))
         \<Longrightarrow> (\<forall>l\<in>set ls. \<forall>l'\<in>set ls. l \<noteq> l' \<longrightarrow> set (B l) \<inter> set (B l') = {})
         \<Longrightarrow> (\<Union>l\<in>set ls. set (B l)) \<inter> all_nodes newm C = {}
         \<Longrightarrow> inj_on (key_of h) (all_nodes newm C \<union> (\<Union>l\<in>set ls. set (B l)))
         \<Longrightarrow> \<exists>h' t' C'. rehash_slots hp newm old ls h t = ok (h', t')
               \<and> buckets_inv hp newm h' t' C'
               \<and> all_nodes newm C' = all_nodes newm C \<union> (\<Union>l\<in>set ls. set (B l))
               \<and> (\<forall>x. key_of h' x = key_of h x \<and> val_of h' x = val_of h x)"
proof (induction ls arbitrary: h t C)
  case Nil
  show ?case
    using Nil.prems(1) by (intro exI [of _ h] exI [of _ t] exI [of _ C]) simp
next
  case (Cons l ls)
  from Cons.prems(3) obtain p where
    p: "read_slot old (int l) = ok p" "chain h p None (B l)" by auto
  have d: "distinct (B l)" using Cons.prems(4) by simp
  have disj: "set (B l) \<inter> all_nodes newm C = {}" using Cons.prems(6) by auto
  have inj: "inj_on (key_of h) (all_nodes newm C \<union> set (B l))"
    by (rule inj_on_subset [OF Cons.prems(7)]) auto
  from rehash_list_inv [OF ok nm Cons.prems(1) p(2) d disj inj] obtain h1 t1 C1 where
    r0: "rehash_list hp newm h t p = ok (h1, t1)
       \<and> buckets_inv hp newm h1 t1 C1
       \<and> all_nodes newm C1 = all_nodes newm C \<union> set (B l)
       \<and> (\<forall>x. x \<notin> all_nodes newm C \<union> set (B l) \<longrightarrow> h1 x = h x)
       \<and> (\<forall>x. key_of h1 x = key_of h x \<and> val_of h1 x = val_of h x)"
    by (elim exE)
  then have
    r: "rehash_list hp newm h t p = ok (h1, t1)"
       "buckets_inv hp newm h1 t1 C1"
       "all_nodes newm C1 = all_nodes newm C \<union> set (B l)"
       "\<forall>x. x \<notin> all_nodes newm C \<union> set (B l) \<longrightarrow> h1 x = h x"
       "\<forall>x. key_of h1 x = key_of h x \<and> val_of h1 x = val_of h x"
    by blast+
  have lnot: "l \<notin> set ls" and dls: "distinct ls" using Cons.prems(2) by simp_all
  have same: "\<And>l' x. l' \<in> set ls \<Longrightarrow> x \<in> set (B l') \<Longrightarrow> h1 x = h x"
  proof -
    fix l' x assume l': "l' \<in> set ls" and x: "x \<in> set (B l')"
    from l' lnot have "l \<noteq> l'" by auto
    with Cons.prems(5) l' have "set (B l) \<inter> set (B l') = {}" by simp
    with x have "x \<notin> set (B l)" by auto
    moreover from Cons.prems(6) l' x have "x \<notin> all_nodes newm C" by auto
    ultimately show "h1 x = h x" using r(4) by simp
  qed
  have c3: "\<forall>l'\<in>set ls. \<exists>p. read_slot old (int l') = ok p \<and> chain h1 p None (B l')"
  proof
    fix l' assume l': "l' \<in> set ls"
    with Cons.prems(3) obtain p' where
      p': "read_slot old (int l') = ok p'" "chain h p' None (B l')" by auto
    have "chain h1 p' None (B l') = chain h p' None (B l')"
      by (rule chain_cong) (rule same [OF l'])
    with p' show "\<exists>p. read_slot old (int l') = ok p \<and> chain h1 p None (B l')" by auto
  qed
  have c4: "\<forall>l'\<in>set ls. distinct (B l')" using Cons.prems(4) by simp
  have c5: "\<forall>l'\<in>set ls. \<forall>l''\<in>set ls. l' \<noteq> l'' \<longrightarrow> set (B l') \<inter> set (B l'') = {}"
    using Cons.prems(5) by simp
  have c6: "(\<Union>l'\<in>set ls. set (B l')) \<inter> all_nodes newm C1 = {}"
  proof -
    have "\<And>l' x. l' \<in> set ls \<Longrightarrow> x \<in> set (B l') \<Longrightarrow> x \<notin> all_nodes newm C1"
    proof -
      fix l' x assume l': "l' \<in> set ls" and x: "x \<in> set (B l')"
      from l' lnot have "l \<noteq> l'" by auto
      with Cons.prems(5) l' have "set (B l) \<inter> set (B l') = {}" by simp
      with x have "x \<notin> set (B l)" by auto
      moreover from Cons.prems(6) l' x have "x \<notin> all_nodes newm C" by auto
      ultimately show "x \<notin> all_nodes newm C1" using r(3) by simp
    qed
    then show ?thesis by auto
  qed
  have seteq: "all_nodes newm C1 \<union> (\<Union>l'\<in>set ls. set (B l'))
             = all_nodes newm C \<union> (\<Union>l'\<in>set (l # ls). set (B l'))"
    using r(3) by auto
  have c7: "inj_on (key_of h1) (all_nodes newm C1 \<union> (\<Union>l'\<in>set ls. set (B l')))"
  proof -
    have "inj_on (key_of h1) (all_nodes newm C \<union> (\<Union>l'\<in>set (l # ls). set (B l')))
        = inj_on (key_of h) (all_nodes newm C \<union> (\<Union>l'\<in>set (l # ls). set (B l')))"
      by (rule inj_on_cong) (simp add: r(5))
    with Cons.prems(7) seteq show ?thesis by simp
  qed
  from Cons.IH [OF r(2) dls c3 c4 c5 c6 c7] obtain h' t' C' where
    s0: "rehash_slots hp newm old ls h1 t1 = ok (h', t')
       \<and> buckets_inv hp newm h' t' C'
       \<and> all_nodes newm C' = all_nodes newm C1 \<union> (\<Union>l\<in>set ls. set (B l))
       \<and> (\<forall>x. key_of h' x = key_of h1 x \<and> val_of h' x = val_of h1 x)"
    by (elim exE)
  then have
    s: "rehash_slots hp newm old ls h1 t1 = ok (h', t')"
       "buckets_inv hp newm h' t' C'"
       "all_nodes newm C' = all_nodes newm C1 \<union> (\<Union>l\<in>set ls. set (B l))"
       "\<forall>x. key_of h' x = key_of h1 x \<and> val_of h' x = val_of h1 x"
    by blast+
  have 1: "rehash_slots hp newm old (l # ls) h t = ok (h', t')"
    using p(1) r(1) s(1) by simp
  have 2: "all_nodes newm C' = all_nodes newm C \<union> (\<Union>l'\<in>set (l # ls). set (B l'))"
    using s(3) seteq by simp
  have 3: "\<forall>x. key_of h' x = key_of h x \<and> val_of h' x = val_of h x"
    using s(4) r(5) by simp
  show ?case
    using 1 s(2) 2 3 by (intro exI [of _ h'] exI [of _ t'] exI [of _ C'] conjI)
qed

lemma buckets_inv_empty:
  assumes "\<forall>i<nat newm. junk i = Ptr None"
  shows "buckets_inv hp newm h (malloc_slots junk newm) (\<lambda>_. [])"
proof -
  have "\<forall>i<nat newm. read_slot (malloc_slots junk newm) (int i) = ok None"
    using assms by (auto simp: read_malloc_slots)
  then show ?thesis by (simp add: buckets_inv_def all_nodes_def)
qed

lemma resize_inv:
  assumes ok: "params_ok hp" and nm: "0 < newm" "newm \<le> INT_MAX"
      and inv: "buckets_inv hp (ht_m ht) (ht_nodes ht) (ht_table ht) B"
      and zero: "\<forall>i<nat newm. junk i = Ptr None"
  shows "\<exists>ht' C. resize_hash_table hp junk ht newm = ok ht'
           \<and> ht_m ht' = newm \<and> ht_n ht' = ht_n ht
           \<and> buckets_inv hp newm (ht_nodes ht') (ht_table ht') C
           \<and> all_nodes newm C = all_nodes (ht_m ht) B
           \<and> (\<forall>x. key_of (ht_nodes ht') x = key_of (ht_nodes ht) x
                  \<and> val_of (ht_nodes ht') x = val_of (ht_nodes ht) x)"
proof -
  let ?ls = "[0..<nat (ht_m ht)]"
  let ?h = "ht_nodes ht"
  let ?t0 = "malloc_slots junk newm"
  let ?C0 = "\<lambda>_::nat. [] :: addr list"
  have i0: "buckets_inv hp newm ?h ?t0 ?C0" using zero by (rule buckets_inv_empty)
  have e0: "all_nodes newm ?C0 = {}" by (simp add: all_nodes_def)
  have u: "(\<Union>l\<in>set ?ls. set (B l)) = all_nodes (ht_m ht) B"
    by (auto simp: all_nodes_def)
  have c3: "\<forall>l\<in>set ?ls. \<exists>p. read_slot (ht_table ht) (int l) = ok p \<and> chain ?h p None (B l)"
    using buckets_inv_slot [OF inv] by simp
  have c4: "\<forall>l\<in>set ?ls. distinct (B l)"
    using buckets_inv_distinct [OF inv] by simp
  have c5: "\<forall>l\<in>set ?ls. \<forall>l'\<in>set ?ls. l \<noteq> l' \<longrightarrow> set (B l) \<inter> set (B l') = {}"
  proof (intro ballI impI)
    fix l l' assume l: "l \<in> set ?ls" "l' \<in> set ?ls" "l \<noteq> l'"
    show "set (B l) \<inter> set (B l') = {}"
    proof (rule ccontr)
      assume "set (B l) \<inter> set (B l') \<noteq> {}"
      then obtain x where "x \<in> set (B l)" "x \<in> set (B l')" by auto
      from bucket_unique [OF inv _ _ this] l show False by simp
    qed
  qed
  have c6: "(\<Union>l\<in>set ?ls. set (B l)) \<inter> all_nodes newm ?C0 = {}" by (simp add: e0)
  have u': "(\<Union>x\<in>{0..<nat (ht_m ht)}. set (B x)) = all_nodes (ht_m ht) B"
    by (auto simp: all_nodes_def)
  have c7: "inj_on (key_of ?h) (all_nodes newm ?C0 \<union> (\<Union>l\<in>set ?ls. set (B l)))"
    using buckets_inv_inj [OF inv] by (simp add: e0 u')
  from rehash_slots_inv [OF ok nm i0 _ c3 c4 c5 c6 c7] obtain h' t' C' where
    s0: "rehash_slots hp newm (ht_table ht) ?ls ?h ?t0 = ok (h', t')
       \<and> buckets_inv hp newm h' t' C'
       \<and> all_nodes newm C' = all_nodes newm ?C0 \<union> (\<Union>l\<in>set ?ls. set (B l))
       \<and> (\<forall>x. key_of h' x = key_of ?h x \<and> val_of h' x = val_of ?h x)"
    by auto
  then have
    s: "rehash_slots hp newm (ht_table ht) ?ls ?h ?t0 = ok (h', t')"
       "buckets_inv hp newm h' t' C'"
       "all_nodes newm C' = all_nodes newm ?C0 \<union> (\<Union>l\<in>set ?ls. set (B l))"
       "\<forall>x. key_of h' x = key_of ?h x \<and> val_of h' x = val_of ?h x"
    by blast+
  let ?ht' = "ht\<lparr>ht_table := t', ht_m := newm, ht_nodes := h'\<rparr>"
  have 1: "resize_hash_table hp junk ht newm = ok ?ht'"
    using s(1) by (simp add: resize_hash_table_def Let_def)
  have 2: "all_nodes newm C' = all_nodes (ht_m ht) B" using s(3) by (simp add: e0 u')
  show ?thesis
    using 1 s(2) 2 s(4) by (intro exI [of _ ?ht'] exI [of _ C']) simp
qed

lemma finite_all_nodes [simp]: "finite (all_nodes m B)"
  by (simp add: all_nodes_def)

lemma all_nodes_live:
  assumes "buckets_inv hp m h t B" "a \<in> all_nodes m B"
  shows "\<exists>nd. h a = Some nd"
proof -
  from assms(2) obtain i where i: "i < nat m" "a \<in> set (B i)" by (auto dest: all_nodesE)
  from buckets_inv_slot [OF assms(1) i(1)] obtain p where "chain h p None (B i)" by blast
  from chain_live [OF this i(2)] show ?thesis .
qed

lemma search_node_SomeI:
  assumes ok: "params_ok hp" and m: "0 \<le> ht_m ht" "ht_m ht \<le> INT_MAX"
      and inv: "buckets_inv hp (ht_m ht) (ht_nodes ht) (ht_table ht) B"
      and a: "a \<in> all_nodes (ht_m ht) B" "key_of (ht_nodes ht) a = Some key"
  shows "hash_search_node hp ht key = ok (Some a)"
proof -
  from search_node_spec [OF ok m inv, of key] obtain r where
    r: "hash_search_node hp ht key = ok r"
       "case r of None \<Rightarrow> \<forall>a\<in>all_nodes (ht_m ht) B. key_of (ht_nodes ht) a \<noteq> Some key
        | Some a \<Rightarrow> a \<in> all_nodes (ht_m ht) B \<and> key_of (ht_nodes ht) a = Some key"
    by blast
  show ?thesis
  proof (cases r)
    case None
    with r(2) a show ?thesis by auto
  next
    case (Some b)
    with r(2) have b: "b \<in> all_nodes (ht_m ht) B" "key_of (ht_nodes ht) b = Some key" by auto
    from buckets_inv_inj [OF inv] a b have "b = a" by (auto simp: inj_on_def)
    with r(1) Some show ?thesis by simp
  qed
qed

lemma search_node_NoneI:
  assumes ok: "params_ok hp" and m: "0 \<le> ht_m ht" "ht_m ht \<le> INT_MAX"
      and inv: "buckets_inv hp (ht_m ht) (ht_nodes ht) (ht_table ht) B"
      and a: "\<forall>a\<in>all_nodes (ht_m ht) B. key_of (ht_nodes ht) a \<noteq> Some key"
  shows "hash_search_node hp ht key = ok None"
proof -
  from search_node_spec [OF ok m inv, of key] obtain r where
    r: "hash_search_node hp ht key = ok r"
       "case r of None \<Rightarrow> \<forall>a\<in>all_nodes (ht_m ht) B. key_of (ht_nodes ht) a \<noteq> Some key
        | Some a \<Rightarrow> a \<in> all_nodes (ht_m ht) B \<and> key_of (ht_nodes ht) a = Some key"
    by blast
  with a show ?thesis by (cases r) auto
qed

text \<open>
  The value \<^verbatim>\<open>hash_search\<close> returns on a well-formed table, in terms of the
  nodes of the table.
\<close>

lemma lookup_spec:
  assumes ok: "params_ok hp" and m: "0 \<le> ht_m ht" "ht_m ht \<le> INT_MAX"
      and inv: "buckets_inv hp (ht_m ht) (ht_nodes ht) (ht_table ht) B"
  shows "(\<forall>a\<in>all_nodes (ht_m ht) B. key_of (ht_nodes ht) a \<noteq> Some key) \<Longrightarrow> lookup hp ht key = ok None"
    and "a \<in> all_nodes (ht_m ht) B \<Longrightarrow> key_of (ht_nodes ht) a = Some key
           \<Longrightarrow> lookup hp ht key = ok (val_of (ht_nodes ht) a)"
proof -
  assume "\<forall>a\<in>all_nodes (ht_m ht) B. key_of (ht_nodes ht) a \<noteq> Some key"
  from search_node_NoneI [OF ok m inv this] show "lookup hp ht key = ok None"
    by (simp add: lookup_def hash_search_def)
next
  assume a: "a \<in> all_nodes (ht_m ht) B" "key_of (ht_nodes ht) a = Some key"
  from all_nodes_live [OF inv a(1)] obtain nd where "ht_nodes ht a = Some nd" by blast
  with search_node_SomeI [OF ok m inv a] show "lookup hp ht key = ok (val_of (ht_nodes ht) a)"
    by (simp add: lookup_def hash_search_def deref_def val_of_def)
qed

text \<open>
  Two well-formed tables that hold the same node for a key, with the same value,
  answer the lookup of that key alike.
\<close>

lemma lookup_agree:
  assumes ok: "params_ok hp"
      and m: "0 \<le> ht_m ht" "ht_m ht \<le> INT_MAX" and m': "0 \<le> ht_m ht'" "ht_m ht' \<le> INT_MAX"
      and inv: "buckets_inv hp (ht_m ht) (ht_nodes ht) (ht_table ht) B"
      and inv': "buckets_inv hp (ht_m ht') (ht_nodes ht') (ht_table ht') B'"
      and nodes: "\<forall>x. (x \<in> all_nodes (ht_m ht') B' \<and> key_of (ht_nodes ht') x = Some key)
                    = (x \<in> all_nodes (ht_m ht) B \<and> key_of (ht_nodes ht) x = Some key)"
      and vals: "\<forall>x\<in>all_nodes (ht_m ht) B. key_of (ht_nodes ht) x = Some key
                    \<longrightarrow> val_of (ht_nodes ht') x = val_of (ht_nodes ht) x"
  shows "hash_search_node hp ht' key = hash_search_node hp ht key
       \<and> lookup hp ht' key = lookup hp ht key"
proof (cases "\<exists>a\<in>all_nodes (ht_m ht) B. key_of (ht_nodes ht) a = Some key")
  case True
  then obtain a where a: "a \<in> all_nodes (ht_m ht) B" "key_of (ht_nodes ht) a = Some key" by blast
  with nodes have a': "a \<in> all_nodes (ht_m ht') B'" "key_of (ht_nodes ht') a = Some key"
    by blast+
  from a vals have v: "val_of (ht_nodes ht') a = val_of (ht_nodes ht) a" by blast
  from search_node_SomeI [OF ok m inv a] search_node_SomeI [OF ok m' inv' a']
       lookup_spec(2) [OF ok m inv a] lookup_spec(2) [OF ok m' inv' a'] v
  show ?thesis by simp
next
  case False
  then have n: "\<forall>a\<in>all_nodes (ht_m ht) B. key_of (ht_nodes ht) a \<noteq> Some key" by blast
  with nodes have n': "\<forall>a\<in>all_nodes (ht_m ht') B'. key_of (ht_nodes ht') a \<noteq> Some key"
    by blast
  from search_node_NoneI [OF ok m inv n] search_node_NoneI [OF ok m' inv' n']
       lookup_spec(1) [OF ok m inv n] lookup_spec(1) [OF ok m' inv' n']
  show ?thesis by simp
qed

text \<open>
  Resize fidelity, for a fresh array that is zero: the resize of a well-formed
  table returns a well-formed table that answers every lookup as before.
\<close>

lemma resize_fidelity:
  assumes ok: "params_ok hp" and wf: "wf hp ht"
      and nm: "0 < newm" "newm \<le> INT_MAX"
      and zero: "\<forall>i<nat newm. junk i = Ptr None"
  shows "\<exists>ht'. resize_hash_table hp junk ht newm = ok ht' \<and> wf hp ht'
           \<and> ht_m ht' = newm \<and> ht_n ht' = ht_n ht
           \<and> (\<forall>key. hash_search_node hp ht' key = hash_search_node hp ht key
                   \<and> lookup hp ht' key = lookup hp ht key)"
proof -
  from wf obtain B where
    m: "0 \<le> ht_m ht" "ht_m ht \<le> INT_MAX" and
    inv: "buckets_inv hp (ht_m ht) (ht_nodes ht) (ht_table ht) B" and
    n: "ht_n ht = int (card (all_nodes (ht_m ht) B))"
    unfolding wf_def by blast
  from resize_inv [OF ok nm inv zero] obtain ht' C where
    r0: "resize_hash_table hp junk ht newm = ok ht'
       \<and> ht_m ht' = newm \<and> ht_n ht' = ht_n ht
       \<and> buckets_inv hp newm (ht_nodes ht') (ht_table ht') C
       \<and> all_nodes newm C = all_nodes (ht_m ht) B
       \<and> (\<forall>x. key_of (ht_nodes ht') x = key_of (ht_nodes ht) x
              \<and> val_of (ht_nodes ht') x = val_of (ht_nodes ht) x)"
    by (elim exE)
  then have
    r: "resize_hash_table hp junk ht newm = ok ht'" "ht_m ht' = newm" "ht_n ht' = ht_n ht"
       "buckets_inv hp newm (ht_nodes ht') (ht_table ht') C"
       "all_nodes newm C = all_nodes (ht_m ht) B"
       "\<forall>x. key_of (ht_nodes ht') x = key_of (ht_nodes ht) x
              \<and> val_of (ht_nodes ht') x = val_of (ht_nodes ht) x"
    by blast+
  have m': "0 \<le> ht_m ht'" "ht_m ht' \<le> INT_MAX" using nm r(2) by simp_all
  have inv': "buckets_inv hp (ht_m ht') (ht_nodes ht') (ht_table ht') C" using r(2,4) by simp
  have nodes: "all_nodes (ht_m ht') C = all_nodes (ht_m ht) B" using r(2,5) by simp
  have wf': "wf hp ht'"
    unfolding wf_def using m' inv' nodes n r(3) by auto
  have "\<forall>key. hash_search_node hp ht' key = hash_search_node hp ht key
                   \<and> lookup hp ht' key = lookup hp ht key"
  proof
    fix key
    show "hash_search_node hp ht' key = hash_search_node hp ht key
                   \<and> lookup hp ht' key = lookup hp ht key"
      using nodes r(6) by (intro lookup_agree [OF ok m m' inv inv']) simp_all
  qed
  with r(1,2,3) wf' show ?thesis by blast
qed

lemma chain_same_links:
  assumes "\<And>x. map_option node_next (h' x) = map_option node_next (h x)
              \<and> map_option node_prev (h' x) = map_option node_prev (h x)"
  shows "chain h' p pv as = chain h p pv as"
proof (induction as arbitrary: p pv)
  case Nil
  show ?case by simp
next
  case (Cons a as)
  from assms [of a] show ?case
    by (cases "h a"; cases "h' a") (auto simp: Cons.IH)
qed

lemma buckets_inv_set_value:
  assumes inv: "buckets_inv hp m h t B" and f: "h f = Some nd"
  shows "buckets_inv hp m (h(f \<mapsto> nd\<lparr>node_value := v\<rparr>)) t B"
proof -
  let ?h = "h(f \<mapsto> nd\<lparr>node_value := v\<rparr>)"
  have ch: "\<And>p pv as. chain ?h p pv as = chain h p pv as"
    using f by (intro chain_same_links) auto
  have k: "key_of ?h = key_of h"
    using f by (auto simp: key_of_def fun_eq_iff)
  from inv show ?thesis
    by (simp add: buckets_inv_def ch k)
qed

lemma pushed_key_val_other:
  assumes "x \<noteq> a" "\<forall>b. q = Some b \<longrightarrow> h b \<noteq> None"
  shows "key_of (pushed h a nd q) x = key_of h x \<and> val_of (pushed h a nd q) x = val_of h x"
  using assms by (cases q) (auto simp: pushed_def key_of_def val_of_def)

lemma pushed_self:
  assumes "\<forall>b. q = Some b \<longrightarrow> b \<noteq> a"
  shows "pushed h a nd q a = Some (nd\<lparr>node_prev := None, node_next := q\<rparr>)"
  using assms by (cases q) (auto simp: pushed_def)

text \<open>Growing a well-formed table into a zero array keeps it well-formed, with the same nodes.\<close>

lemma grow_inv:
  assumes ok: "params_ok hp" and m: "0 \<le> ht_m ht" "2 * ht_m ht \<le> INT_MAX"
      and inv: "buckets_inv hp (ht_m ht) (ht_nodes ht) (ht_table ht) B"
      and zero: "\<forall>i. junk i = Ptr None"
  shows "\<exists>ht1 B1. grow_hash_table hp junk ht = ok ht1
           \<and> 0 < ht_m ht1 \<and> ht_m ht1 \<le> INT_MAX \<and> ht_n ht1 = ht_n ht
           \<and> ht_m ht1 = (if ht_m ht = 0 then MIN_TABLE_SIZE else 2 * ht_m ht)
           \<and> buckets_inv hp (ht_m ht1) (ht_nodes ht1) (ht_table ht1) B1
           \<and> all_nodes (ht_m ht1) B1 = all_nodes (ht_m ht) B
           \<and> (\<forall>x. key_of (ht_nodes ht1) x = key_of (ht_nodes ht) x
                  \<and> val_of (ht_nodes ht1) x = val_of (ht_nodes ht) x)"
proof (cases "ht_m ht = 0")
  case True
  let ?ht1 = "ht\<lparr>ht_m := MIN_TABLE_SIZE, ht_table := malloc_slots junk MIN_TABLE_SIZE\<rparr>"
  have g: "grow_hash_table hp junk ht = ok ?ht1"
    using True by (simp add: grow_hash_table_def)
  have i: "buckets_inv hp MIN_TABLE_SIZE (ht_nodes ht) (malloc_slots junk MIN_TABLE_SIZE) (\<lambda>_. [])"
    using zero by (intro buckets_inv_empty) simp
  have e: "all_nodes MIN_TABLE_SIZE (\<lambda>_. []) = all_nodes (ht_m ht) B"
    using True by (simp add: all_nodes_def)
  show ?thesis
    using g i e True
    by (intro exI [of _ ?ht1] exI [of _ "\<lambda>_. []"]) (simp add: MIN_TABLE_SIZE_def INT_MAX_def)
next
  case False
  with m have nm: "0 < 2 * ht_m ht" "2 * ht_m ht \<le> INT_MAX" by simp_all
  have z: "\<forall>i<nat (2 * ht_m ht). junk i = Ptr None" using zero by simp
  from resize_inv [OF ok nm inv z] obtain ht1 C where
    r0: "resize_hash_table hp junk ht (2 * ht_m ht) = ok ht1
       \<and> ht_m ht1 = 2 * ht_m ht \<and> ht_n ht1 = ht_n ht
       \<and> buckets_inv hp (2 * ht_m ht) (ht_nodes ht1) (ht_table ht1) C
       \<and> all_nodes (2 * ht_m ht) C = all_nodes (ht_m ht) B
       \<and> (\<forall>x. key_of (ht_nodes ht1) x = key_of (ht_nodes ht) x
              \<and> val_of (ht_nodes ht1) x = val_of (ht_nodes ht) x)"
    by (elim exE)
  have g: "grow_hash_table hp junk ht = resize_hash_table hp junk ht (2 * ht_m ht)"
    using False m nm by (simp add: grow_hash_table_def INT_MIN_def)
  show ?thesis
    using r0 g False nm by (intro exI [of _ ht1] exI [of _ C]) simp
qed

lemma insert_link_heap:
  assumes "h a = None" "\<forall>b. q = Some b \<longrightarrow> b \<noteq> a \<and> h b \<noteq> None"
  shows "(case q of
            None \<Rightarrow> ok (new_hash_node h a key val)
          | Some b \<Rightarrow> bind_o (set_next (new_hash_node h a key val) a (Some b))
                         (\<lambda>h1. set_prev h1 b (Some a)))
         = ok (pushed h a \<lparr>node_next = None, node_prev = None, node_key = key, node_value = val\<rparr> q)"
proof (cases q)
  case None
  then show ?thesis by (simp add: new_hash_node_def pushed_def)
next
  case (Some b)
  with assms obtain ndb where b: "b \<noteq> a" "h b = Some ndb" by auto
  with Some show ?thesis
    by (simp add: new_hash_node_def pushed_def set_next_def set_prev_def deref_def)
qed

lemma key_of_None: "key_of h a = None \<longleftrightarrow> h a = None"
  by (simp add: key_of_def)

text \<open>
  Insertion into a well-formed table, when every fresh array is zero and the
  node address is fresh: the call returns a well-formed table in which the key
  has the value and every other key is as before.
\<close>

lemma insert_wf:
  assumes ok: "params_ok hp" and wf: "wf hp ht"
      and fresh: "ht_nodes ht a = None"
      and zero: "\<forall>i. junk i = Ptr None"
      and nb: "ht_n ht < INT_MAX" and mb: "2 * ht_m ht \<le> INT_MAX"
  shows "\<exists>ht'. hash_insert hp junk a ht key val = ok ht' \<and> wf hp ht'
           \<and> lookup hp ht' key = ok (Some val)
           \<and> (\<forall>k. k \<noteq> key \<longrightarrow> lookup hp ht' k = lookup hp ht k)
           \<and> (\<forall>x. x \<noteq> a \<longrightarrow> key_of (ht_nodes ht') x = key_of (ht_nodes ht) x)"
proof -
  from wf obtain B where
    m: "0 \<le> ht_m ht" "ht_m ht \<le> INT_MAX" and
    inv: "buckets_inv hp (ht_m ht) (ht_nodes ht) (ht_table ht) B" and
    n: "ht_n ht = int (card (all_nodes (ht_m ht) B))"
    unfolding wf_def by blast
  from search_node_spec [OF ok m inv, of key] obtain r where
    r: "hash_search_node hp ht key = ok r"
       "case r of None \<Rightarrow> \<forall>a\<in>all_nodes (ht_m ht) B. key_of (ht_nodes ht) a \<noteq> Some key
        | Some a \<Rightarrow> a \<in> all_nodes (ht_m ht) B \<and> key_of (ht_nodes ht) a = Some key"
    by blast
  have "\<exists>ht'. hash_insert hp junk a ht key val = ok ht' \<and> wf hp ht'
           \<and> (\<forall>k. k \<noteq> key \<longrightarrow> lookup hp ht' k = lookup hp ht k)
           \<and> (\<forall>x. x \<noteq> a \<longrightarrow> key_of (ht_nodes ht') x = key_of (ht_nodes ht) x)"
  proof (cases r)
    case (Some f)
    with r(2) have f: "f \<in> all_nodes (ht_m ht) B" "key_of (ht_nodes ht) f = Some key" by auto
    from all_nodes_live [OF inv f(1)] obtain nd where nd: "ht_nodes ht f = Some nd" by blast
    let ?h = "(ht_nodes ht)(f \<mapsto> nd\<lparr>node_value := val\<rparr>)"
    let ?ht = "ht\<lparr>ht_nodes := ?h\<rparr>"
    have i: "hash_insert hp junk a ht key val = ok ?ht"
      using r(1) Some nd by (simp add: hash_insert_def set_value_def deref_def)
    have inv': "buckets_inv hp (ht_m ?ht) (ht_nodes ?ht) (ht_table ?ht) B"
      using buckets_inv_set_value [OF inv nd] by simp
    have w: "wf hp ?ht"
      unfolding wf_def using m inv' n by auto
    have k: "\<And>x. key_of ?h x = key_of (ht_nodes ht) x"
      using nd by (simp add: key_of_def)
    have "\<forall>k. k \<noteq> key \<longrightarrow> lookup hp ?ht k = lookup hp ht k"
    proof (intro allI impI)
      fix k assume kk: "k \<noteq> key"
      have m': "0 \<le> ht_m ?ht" "ht_m ?ht \<le> INT_MAX" using m by simp_all
      have "hash_search_node hp ?ht k = hash_search_node hp ht k \<and> lookup hp ?ht k = lookup hp ht k"
      proof (rule lookup_agree [OF ok m m' inv inv'])
        show "\<forall>x. (x \<in> all_nodes (ht_m ?ht) B \<and> key_of (ht_nodes ?ht) x = Some k)
                 = (x \<in> all_nodes (ht_m ht) B \<and> key_of (ht_nodes ht) x = Some k)"
          by (simp add: k)
        show "\<forall>x\<in>all_nodes (ht_m ht) B. key_of (ht_nodes ht) x = Some k
                 \<longrightarrow> val_of (ht_nodes ?ht) x = val_of (ht_nodes ht) x"
          using f(2) kk by (auto simp: val_of_def)
      qed
      then show "lookup hp ?ht k = lookup hp ht k" by simp
    qed
    moreover have "\<forall>x. x \<noteq> a \<longrightarrow> key_of (ht_nodes ?ht) x = key_of (ht_nodes ht) x"
      using k by simp
    ultimately show ?thesis using i w
      by (intro exI [of _ ?ht] conjI)
  next
    case None
    with r(2) have nokey: "\<forall>x\<in>all_nodes (ht_m ht) B. key_of (ht_nodes ht) x \<noteq> Some key" by simp
    \<comment> \<open>the table after the growth check\<close>
    have "\<exists>ht1 B1. (if ht_n ht = ht_m ht then grow_hash_table hp junk ht else ok ht) = ok ht1
           \<and> 0 < ht_m ht1 \<and> ht_m ht1 \<le> INT_MAX \<and> ht_n ht1 = ht_n ht
           \<and> buckets_inv hp (ht_m ht1) (ht_nodes ht1) (ht_table ht1) B1
           \<and> all_nodes (ht_m ht1) B1 = all_nodes (ht_m ht) B
           \<and> (\<forall>x. key_of (ht_nodes ht1) x = key_of (ht_nodes ht) x
                  \<and> val_of (ht_nodes ht1) x = val_of (ht_nodes ht) x)"
    proof (cases "ht_n ht = ht_m ht")
      case True
      from grow_inv [OF ok m(1) mb inv zero] True show ?thesis by auto
    next
      case False
      have "ht_m ht \<noteq> 0"
      proof
        assume "ht_m ht = 0"
        then have "all_nodes (ht_m ht) B = {}" by (simp add: all_nodes_def)
        with n \<open>ht_m ht = 0\<close> False show False by simp
      qed
      with m have "0 < ht_m ht" by simp
      with False m inv show ?thesis
        by (intro exI [of _ ht] exI [of _ B]) simp
    qed
    then obtain ht1 B1 where
      g0: "(if ht_n ht = ht_m ht then grow_hash_table hp junk ht else ok ht) = ok ht1
           \<and> 0 < ht_m ht1 \<and> ht_m ht1 \<le> INT_MAX \<and> ht_n ht1 = ht_n ht
           \<and> buckets_inv hp (ht_m ht1) (ht_nodes ht1) (ht_table ht1) B1
           \<and> all_nodes (ht_m ht1) B1 = all_nodes (ht_m ht) B
           \<and> (\<forall>x. key_of (ht_nodes ht1) x = key_of (ht_nodes ht) x
                  \<and> val_of (ht_nodes ht1) x = val_of (ht_nodes ht) x)"
      by (elim exE)
    then have
      g: "(if ht_n ht = ht_m ht then grow_hash_table hp junk ht else ok ht) = ok ht1" and
      m1: "0 < ht_m ht1" "ht_m ht1 \<le> INT_MAX" and n1: "ht_n ht1 = ht_n ht" and
      inv1: "buckets_inv hp (ht_m ht1) (ht_nodes ht1) (ht_table ht1) B1" and
      nodes1: "all_nodes (ht_m ht1) B1 = all_nodes (ht_m ht) B" and
      kv1: "\<forall>x. key_of (ht_nodes ht1) x = key_of (ht_nodes ht) x
                  \<and> val_of (ht_nodes ht1) x = val_of (ht_nodes ht) x"
      by blast+
    let ?h1 = "ht_nodes ht1"
    have a1: "?h1 a = None"
      using kv1 fresh key_of_None [of ?h1 a] key_of_None [of "ht_nodes ht" a] by simp
    have anot: "a \<notin> all_nodes (ht_m ht1) B1"
      using all_nodes_live [OF inv1, of a] a1 by auto
    have nokey1: "\<forall>x\<in>all_nodes (ht_m ht1) B1. key_of ?h1 x \<noteq> Some key"
      using nokey nodes1 kv1 by simp
    from hash_in_range [OF ok m1] obtain s where
      s: "hash hp key (ht_m ht1) = ok s" "0 \<le> s" "s < ht_m ht1" by blast
    define i where "i = nat s"
    have i: "i < nat (ht_m ht1)" "int i = s" using s by (simp_all add: i_def)
    from buckets_inv_slot [OF inv1 i(1)] i(2) obtain q where
      q: "read_slot (ht_table ht1) s = ok q" "chain ?h1 q None (B1 i)" by auto
    from write_slot_ok [OF q(1)] obtain t' where
      wr: "write_slot (ht_table ht1) s (Some a) = ok t'" by blast
    have qin: "\<forall>b. q = Some b \<longrightarrow> b \<noteq> a \<and> ?h1 b \<noteq> None"
    proof (intro allI impI)
      fix b assume "q = Some b"
      with q(2) have "b \<in> set (B1 i)" by (cases "B1 i") auto
      from chain_live [OF q(2) this] obtain ndb where "?h1 b = Some ndb" by blast
      with a1 show "b \<noteq> a \<and> ?h1 b \<noteq> None" by auto
    qed
    let ?nd = "\<lparr>node_next = None, node_prev = None, node_key = key, node_value = val\<rparr>"
    let ?h' = "pushed ?h1 a ?nd q"
    let ?B' = "B1(i := a # B1 i)"
    let ?ht' = "ht1\<lparr>ht_n := ht_n ht1 + 1, ht_table := t', ht_nodes := ?h'\<rparr>"
    have link: "(case q of
            None \<Rightarrow> ok (new_hash_node ?h1 a key val)
          | Some b \<Rightarrow> bind_o (set_next (new_hash_node ?h1 a key val) a (Some b))
                         (\<lambda>h1. set_prev h1 b (Some a))) = ok ?h'"
      using a1 qin by (rule insert_link_heap)
    have link': "(case q of
            None \<Rightarrow> ok (new_hash_node (ht_nodes (ht1\<lparr>ht_n := ht_n ht + 1\<rparr>)) a key val)
          | Some b \<Rightarrow> bind_o (set_next (new_hash_node (ht_nodes (ht1\<lparr>ht_n := ht_n ht + 1\<rparr>)) a key val) a (Some b))
                         (\<lambda>h1. set_prev h1 b (Some a))) = ok ?h'"
      using link by (simp cong: option.case_cong)
    have ins: "hash_insert hp junk a ht key val = ok ?ht'"
      using r(1) None g n1 nb s(1) q(1) wr link'
      by (simp add: hash_insert_def link_new_node_def Let_def)
    have inv': "buckets_inv hp (ht_m ht1) ?h' t' ?B'"
      using push_inv [OF inv1 i(1) _ anot _ _ _, of ?nd q t'] s(1) i(2) nokey1 q(1) wr by simp
    have nodes': "all_nodes (ht_m ht1) ?B' = insert a (all_nodes (ht_m ht1) B1)"
      using i(1) by (rule all_nodes_upd)
    have card': "card (all_nodes (ht_m ht1) ?B') = card (all_nodes (ht_m ht) B) + 1"
      using nodes' anot nodes1 by simp
    have w: "wf hp ?ht'"
      unfolding wf_def using m1 inv' card' n n1
      by (auto intro!: exI [of _ ?B'])
    have others: "\<forall>k. k \<noteq> key \<longrightarrow> lookup hp ?ht' k = lookup hp ht k"
    proof (intro allI impI)
      fix k assume kk: "k \<noteq> key"
      have m': "0 \<le> ht_m ?ht'" "ht_m ?ht' \<le> INT_MAX" using m1 by simp_all
      have inv'': "buckets_inv hp (ht_m ?ht') (ht_nodes ?ht') (ht_table ?ht') ?B'"
        using inv' by simp
      have ka: "key_of ?h' a = Some key"
        using pushed_self [of q a ?h1 ?nd] qin by (simp add: key_of_def)
      have ko: "\<And>x. x \<noteq> a \<Longrightarrow> key_of ?h' x = key_of (ht_nodes ht) x
                                \<and> val_of ?h' x = val_of (ht_nodes ht) x"
        using pushed_key_val_other [of _ a q ?h1 ?nd] qin kv1 by simp
      have "hash_search_node hp ?ht' k = hash_search_node hp ht k
              \<and> lookup hp ?ht' k = lookup hp ht k"
      proof (rule lookup_agree [OF ok m m' inv inv''])
        show "\<forall>x. (x \<in> all_nodes (ht_m ?ht') ?B' \<and> key_of (ht_nodes ?ht') x = Some k)
                 = (x \<in> all_nodes (ht_m ht) B \<and> key_of (ht_nodes ht) x = Some k)"
        proof
          fix x
          show "(x \<in> all_nodes (ht_m ?ht') ?B' \<and> key_of (ht_nodes ?ht') x = Some k)
                 = (x \<in> all_nodes (ht_m ht) B \<and> key_of (ht_nodes ht) x = Some k)"
          proof (cases "x = a")
            case True
            with ka kk anot nodes1 show ?thesis by simp
          next
            case False
            with ko [OF False] nodes' nodes1 show ?thesis by simp
          qed
        qed
        show "\<forall>x\<in>all_nodes (ht_m ht) B. key_of (ht_nodes ht) x = Some k
                 \<longrightarrow> val_of (ht_nodes ?ht') x = val_of (ht_nodes ht) x"
        proof (intro ballI impI)
          fix x assume "x \<in> all_nodes (ht_m ht) B"
          with anot nodes1 have "x \<noteq> a" by auto
          from ko [OF this] show "val_of (ht_nodes ?ht') x = val_of (ht_nodes ht) x" by simp
        qed
      qed
      then show "lookup hp ?ht' k = lookup hp ht k" by simp
    qed
    have frame: "\<forall>x. x \<noteq> a \<longrightarrow> key_of (ht_nodes ?ht') x = key_of (ht_nodes ht) x"
      using pushed_key_val_other [of _ a q ?h1 ?nd] qin kv1 by simp
    from ins w others frame show ?thesis
      by (intro exI [of _ ?ht'] conjI)
  qed
  then obtain ht' where
    h: "hash_insert hp junk a ht key val = ok ht'" "wf hp ht'"
       "\<forall>k. k \<noteq> key \<longrightarrow> lookup hp ht' k = lookup hp ht k"
       "\<forall>x. x \<noteq> a \<longrightarrow> key_of (ht_nodes ht') x = key_of (ht_nodes ht) x"
    by blast
  from insert_then_search [OF h(1)] have "lookup hp ht' key = ok (Some val)"
    by (simp add: lookup_def)
  with h show ?thesis by blast
qed

lemma unlinked_self: "h a = Some nd \<Longrightarrow> unlinked h a a = None"
  by (simp add: unlinked_def Let_def)

lemma unlinked_other:
  assumes "h a = Some nd" "x \<noteq> a" "node_next nd \<noteq> Some x" "node_prev nd \<noteq> Some x"
  shows "unlinked h a x = h x"
  using assms by (auto simp: unlinked_def Let_def split: option.splits)

lemma unlinked_next:
  assumes "h a = Some nd" "node_next nd = Some nx" "nx \<noteq> a" "node_prev nd \<noteq> Some nx"
      "h nx = Some ndx"
  shows "unlinked h a nx = Some (ndx\<lparr>node_prev := node_prev nd\<rparr>)"
  using assms by (auto simp: unlinked_def Let_def split: option.splits)

lemma unlinked_prev:
  assumes "h a = Some nd" "node_prev nd = Some px" "px \<noteq> a" "node_next nd \<noteq> Some px"
      "h px = Some ndp"
  shows "unlinked h a px = Some (ndp\<lparr>node_next := node_next nd\<rparr>)"
  using assms by (auto simp: unlinked_def Let_def split: option.splits)

lemma chain_next_in:
  "chain h p pv as \<Longrightarrow> as = a # rest \<Longrightarrow> h a = Some nd
     \<Longrightarrow> node_next nd = (case rest of [] \<Rightarrow> None | b # _ \<Rightarrow> Some b)"
  by (cases rest) auto

text \<open>
  Unlinking the node \<open>a\<close> from a chain: the chain without \<open>a\<close> is a chain of
  the heap \<^verbatim>\<open>hash_remove\<close> leaves.
\<close>

lemma chain_unlink:
  "chain h p pv (pre @ a # post) \<Longrightarrow> distinct (pre @ a # post)
   \<Longrightarrow> (\<forall>x. pv = Some x \<longrightarrow> x \<notin> set (pre @ a # post))
   \<Longrightarrow> \<exists>nd. h a = Some nd
          \<and> node_prev nd = (if pre = [] then pv else Some (last pre))
          \<and> node_next nd = (case post of [] \<Rightarrow> None | b # _ \<Rightarrow> Some b)
          \<and> chain (unlinked h a) (if pre = [] then node_next nd else p) pv (pre @ post)"
proof (induction pre arbitrary: p pv)
  case Nil
  from Nil.prems(1) obtain nd where
    nd: "p = Some a" "h a = Some nd" "node_prev nd = pv" "chain h (node_next nd) (Some a) post"
    by (auto split: option.splits)
  have pva: "pv \<noteq> Some a" using Nil.prems(3) by auto
  have nx: "node_next nd = (case post of [] \<Rightarrow> None | b # _ \<Rightarrow> Some b)"
    using nd(4) by (cases post) auto
  have "chain (unlinked h a) (node_next nd) pv post"
  proof (cases post)
    case Nil
    with nd(4) show ?thesis by simp
  next
    case (Cons b post')
    with nd(4) obtain ndb where
      b: "node_next nd = Some b" "h b = Some ndb" "node_prev ndb = Some a"
         "chain h (node_next ndb) (Some b) post'"
      by (auto split: option.splits)
    have ba: "b \<noteq> a" and bp: "pv \<noteq> Some b"
      using Nil.prems(2,3) Cons by auto
    have hb: "unlinked h a b = Some (ndb\<lparr>node_prev := pv\<rparr>)"
      using unlinked_next [of h a nd b ndb] nd(2,3) b(1,2) ba bp by simp
    have "chain (unlinked h a) (node_next ndb) (Some b) post' = chain h (node_next ndb) (Some b) post'"
    proof (rule chain_cong)
      fix x assume x: "x \<in> set post'"
      with Nil.prems(2,3) Cons have "x \<noteq> a" "x \<noteq> b" "pv \<noteq> Some x" by auto
      with b(1) nd(2,3) show "unlinked h a x = h x"
        using unlinked_other [of h a nd x] by auto
    qed
    with b hb Cons show ?thesis by simp
  qed
  with nd nx show ?case by simp
next
  case (Cons x pre')
  from Cons.prems(1) obtain ndx where
    x: "p = Some x" "h x = Some ndx" "node_prev ndx = pv"
       "chain h (node_next ndx) (Some x) (pre' @ a # post)"
    by (auto split: option.splits)
  have d: "distinct (pre' @ a # post)" and xn: "x \<notin> set (pre' @ a # post)"
    using Cons.prems(2) by auto
  have pvx: "\<forall>y. Some x = Some y \<longrightarrow> y \<notin> set (pre' @ a # post)" using xn by simp
  from Cons.IH [OF x(4) d pvx] obtain nd where
    nd: "h a = Some nd"
        "node_prev nd = (if pre' = [] then Some x else Some (last pre'))"
        "node_next nd = (case post of [] \<Rightarrow> None | b # _ \<Rightarrow> Some b)"
        "chain (unlinked h a) (if pre' = [] then node_next nd else node_next ndx) (Some x) (pre' @ post)"
    by blast
  have xa: "x \<noteq> a" using xn by auto
  have nxx: "node_next nd \<noteq> Some x"
    using nd(3) xn by (cases post) auto
  have hx: "\<exists>ndx'. unlinked h a x = Some ndx' \<and> node_prev ndx' = pv
              \<and> node_next ndx' = (if pre' = [] then node_next nd else node_next ndx)"
  proof (cases "pre' = []")
    case True
    with nd(2) have "node_prev nd = Some x" by simp
    from unlinked_prev [of h a nd x ndx] nd(1) this xa nxx x(2) True x(3) show ?thesis by simp
  next
    case False
    then have "last pre' \<in> set pre'" by simp
    with Cons.prems(2) have "last pre' \<noteq> x" by auto
    with nd(2) False have "node_prev nd \<noteq> Some x" by simp
    from unlinked_other [of h a nd x] nd(1) xa nxx this x(2,3) False show ?thesis by simp
  qed
  then obtain ndx' where
    ndx': "unlinked h a x = Some ndx'" "node_prev ndx' = pv"
          "node_next ndx' = (if pre' = [] then node_next nd else node_next ndx)"
    by blast
  have "chain (unlinked h a) p pv ((x # pre') @ post)"
    using x(1) ndx' nd(4) by simp
  moreover have "node_prev nd = Some (last (x # pre'))" using nd(2) by simp
  ultimately show ?case using nd(1,3) by simp
qed

lemma unlink_node_eval:
  assumes a: "ht_nodes ht a = Some nd"
      and nx: "\<forall>nx. node_next nd = Some nx \<longrightarrow> nx \<noteq> a \<and> ht_nodes ht nx \<noteq> None"
      and px: "\<forall>px. node_prev nd = Some px \<longrightarrow> px \<noteq> a \<and> node_next nd \<noteq> Some px \<and> ht_nodes ht px \<noteq> None"
      and n: "ht_n ht \<noteq> INT_MIN"
      and s: "hash hp key (ht_m ht) = ok s"
      and w: "write_slot (ht_table ht) s (node_next nd) = ok t'"
  shows "unlink_node hp ht key (Some a)
           = ok (ht\<lparr>ht_n := ht_n ht - 1,
                    ht_table := (if node_prev nd = None then t' else ht_table ht),
                    ht_nodes := unlinked (ht_nodes ht) a\<rparr>)"
proof -
  let ?h = "ht_nodes ht"
  define h1 where "h1 = (case node_next nd of
                      None \<Rightarrow> ?h
                    | Some nx \<Rightarrow> ?h(nx \<mapsto> (the (?h nx))\<lparr>node_prev := node_prev nd\<rparr>))"
  have e1: "(case node_next nd of None \<Rightarrow> ok ?h
             | Some nx \<Rightarrow> set_prev ?h nx (node_prev nd)) = ok h1"
    using nx by (cases "node_next nd") (auto simp: h1_def set_prev_def deref_def)
  have h1a: "h1 a = Some nd"
    using a nx by (cases "node_next nd") (auto simp: h1_def)
  define h2 where "h2 = (case node_prev nd of
                      None \<Rightarrow> h1
                    | Some pv \<Rightarrow> h1(pv \<mapsto> (the (h1 pv))\<lparr>node_next := node_next nd\<rparr>))"
  have h1p: "\<And>p. node_prev nd = Some p \<Longrightarrow> h1 p \<noteq> None"
    using px by (cases "node_next nd") (auto simp: h1_def)
  have e2: "(case node_prev nd of
               Some pv \<Rightarrow> bind_o (set_next h1 pv (node_next nd)) (\<lambda>h2. ok (h2, ht_table ht))
             | None \<Rightarrow> bind_o (hash hp key (ht_m ht)) (\<lambda>slot.
                        bind_o (write_slot (ht_table ht) slot (node_next nd)) (\<lambda>t. ok (h1, t))))
            = ok (h2, if node_prev nd = None then t' else ht_table ht)"
    using s w h1p by (cases "node_prev nd") (auto simp: h2_def set_next_def deref_def)
  have h2a: "h2 a = Some nd"
    using h1a px by (cases "node_prev nd") (auto simp: h2_def)
  have u: "unlinked ?h a = h2(a := None)"
    using a unfolding unlinked_def h1_def h2_def by (simp add: Let_def)
  have e1': "(case node_next nd of None \<Rightarrow> ok (ht_nodes (ht\<lparr>ht_n := ht_n ht - 1\<rparr>))
             | Some nx \<Rightarrow> set_prev (ht_nodes (ht\<lparr>ht_n := ht_n ht - 1\<rparr>)) nx (node_prev nd)) = ok h1"
    using e1 by (simp cong: option.case_cong)
  have e2': "(case node_prev nd of
               Some pv \<Rightarrow> bind_o (set_next h1 pv (node_next nd))
                            (\<lambda>h2. ok (h2, ht_table (ht\<lparr>ht_n := ht_n ht - 1\<rparr>)))
             | None \<Rightarrow> bind_o (hash hp key (ht_m (ht\<lparr>ht_n := ht_n ht - 1\<rparr>))) (\<lambda>slot.
                        bind_o (write_slot (ht_table (ht\<lparr>ht_n := ht_n ht - 1\<rparr>)) slot (node_next nd))
                          (\<lambda>t. ok (h1, t))))
            = ok (h2, if node_prev nd = None then t' else ht_table ht)"
    using e2 by (simp cong: option.case_cong)
  show ?thesis
    using n a by (simp add: unlink_node_def Let_def deref_def e1' h1a e2' h2a u free_hash_node_def)
qed

lemma unlinked_key_val:
  assumes "h a = Some nd" "x \<noteq> a"
      "\<forall>nx. node_next nd = Some nx \<longrightarrow> h nx \<noteq> None"
      "\<forall>px. node_prev nd = Some px \<longrightarrow> h px \<noteq> None"
  shows "key_of (unlinked h a) x = key_of h x \<and> val_of (unlinked h a) x = val_of h x"
  using assms
  by (cases "node_next nd"; cases "node_prev nd")
     (auto simp: unlinked_def Let_def key_of_def val_of_def)

lemma unlink_inv:
  assumes ok: "params_ok hp" and m: "0 < ht_m ht" "ht_m ht \<le> INT_MAX"
      and inv: "buckets_inv hp (ht_m ht) (ht_nodes ht) (ht_table ht) B"
      and a: "a \<in> all_nodes (ht_m ht) B" and ka: "key_of (ht_nodes ht) a = Some key"
      and n: "0 \<le> ht_n ht"
  shows "\<exists>ht' B'. unlink_node hp ht key (Some a) = ok ht'
           \<and> ht_m ht' = ht_m ht \<and> ht_n ht' = ht_n ht - 1
           \<and> buckets_inv hp (ht_m ht) (ht_nodes ht') (ht_table ht') B'
           \<and> all_nodes (ht_m ht) B' = all_nodes (ht_m ht) B - {a}
           \<and> (\<forall>x. x \<noteq> a \<longrightarrow> key_of (ht_nodes ht') x = key_of (ht_nodes ht) x
                             \<and> val_of (ht_nodes ht') x = val_of (ht_nodes ht) x)"
proof -
  let ?m = "ht_m ht" and ?h = "ht_nodes ht" and ?t = "ht_table ht"
  from a obtain i where i: "i < nat ?m" "a \<in> set (B i)" by (auto dest: all_nodesE)
  from buckets_inv_key [OF inv i] ka have s: "hash hp key ?m = ok (int i)" by auto
  from i(2) obtain pre post where sp: "B i = pre @ a # post" by (auto dest: split_list)
  have d: "distinct (pre @ a # post)" using buckets_inv_distinct [OF inv i(1)] sp by simp
  from buckets_inv_slot [OF inv i(1)] sp obtain p where
    p: "read_slot ?t (int i) = ok p" "chain ?h p None (pre @ a # post)" by auto
  from chain_unlink [OF p(2) d] obtain nd where
    nd: "?h a = Some nd"
        "node_prev nd = (if pre = [] then None else Some (last pre))"
        "node_next nd = (case post of [] \<Rightarrow> None | b # _ \<Rightarrow> Some b)"
        "chain (unlinked ?h a) (if pre = [] then node_next nd else p) None (pre @ post)"
    by auto
  have nxin: "\<And>nx. node_next nd = Some nx \<Longrightarrow> nx \<in> set post"
    using nd(3) by (cases post) auto
  have pxin: "\<And>px. node_prev nd = Some px \<Longrightarrow> px \<in> set pre"
    using nd(2) by (cases "pre = []") auto
  have live: "\<And>x. x \<in> set (pre @ a # post) \<Longrightarrow> ?h x \<noteq> None"
    using chain_live [OF p(2)] by auto
  have nx: "\<forall>nx. node_next nd = Some nx \<longrightarrow> nx \<noteq> a \<and> ?h nx \<noteq> None"
    using nxin d live by auto
  have px: "\<forall>px. node_prev nd = Some px \<longrightarrow> px \<noteq> a \<and> node_next nd \<noteq> Some px \<and> ?h px \<noteq> None"
  proof (intro allI impI)
    fix px assume "node_prev nd = Some px"
    from pxin [OF this] have pin: "px \<in> set pre" .
    have "node_next nd \<noteq> Some px"
    proof
      assume "node_next nd = Some px"
      from nxin [OF this] pin d show False by auto
    qed
    with pin d live show "px \<noteq> a \<and> node_next nd \<noteq> Some px \<and> ?h px \<noteq> None" by auto
  qed
  from write_slot_ok [OF p(1)] obtain t' where
    w: "write_slot ?t (int i) (node_next nd) = ok t'" by blast
  have nmin: "ht_n ht \<noteq> INT_MIN" using n by (simp add: INT_MIN_def)
  let ?T = "if node_prev nd = None then t' else ?t"
  let ?h' = "unlinked ?h a"
  let ?ht' = "ht\<lparr>ht_n := ht_n ht - 1, ht_table := ?T, ht_nodes := ?h'\<rparr>"
  let ?B' = "B(i := pre @ post)"
  have ev: "unlink_node hp ht key (Some a) = ok ?ht'"
    by (rule unlink_node_eval [OF nd(1) nx px nmin s w])
  have inB: "\<And>j x. j < nat ?m \<Longrightarrow> j \<noteq> i \<Longrightarrow> x \<in> set (B j) \<Longrightarrow> x \<notin> set (B i)"
    using bucket_unique [OF inv] i(1) by blast
  have same: "\<And>j x. j < nat ?m \<Longrightarrow> j \<noteq> i \<Longrightarrow> x \<in> set (B j) \<Longrightarrow> ?h' x = ?h x"
  proof -
    fix j x assume j: "j < nat ?m" "j \<noteq> i" "x \<in> set (B j)"
    from inB [OF j] sp have xn: "x \<notin> set (pre @ a # post)" by simp
    then have "x \<noteq> a" by auto
    moreover have "node_next nd \<noteq> Some x" using nxin xn by auto
    moreover have "node_prev nd \<noteq> Some x" using pxin xn by auto
    ultimately show "?h' x = ?h x" using unlinked_other [of ?h a nd x] nd(1) by simp
  qed
  have kv: "\<And>x. x \<noteq> a \<Longrightarrow> key_of ?h' x = key_of ?h x \<and> val_of ?h' x = val_of ?h x"
    using unlinked_key_val [of ?h a nd] nd(1) nx px by simp
  have c1: "\<forall>j<nat ?m. \<exists>q. read_slot ?T (int j) = ok q \<and> chain ?h' q None (?B' j)"
  proof (intro allI impI)
    fix j assume j: "j < nat ?m"
    show "\<exists>q. read_slot ?T (int j) = ok q \<and> chain ?h' q None (?B' j)"
    proof (cases "j = i")
      case True
      have "read_slot ?T (int i) = ok (if pre = [] then node_next nd else p)"
        using nd(2) p(1) read_write_same [OF w] by (cases "pre = []") auto
      with nd(4) True show ?thesis by simp
    next
      case False
      from buckets_inv_slot [OF inv j] obtain q where
        q: "read_slot ?t (int j) = ok q" "chain ?h q None (B j)" by blast
      have "read_slot ?T (int j) = read_slot ?t (int j)"
        using read_write_other [OF w, of "int j"] False by simp
      moreover have "chain ?h' q None (B j) = chain ?h q None (B j)"
        by (rule chain_cong) (rule same [OF j False])
      ultimately show ?thesis using q False by simp
    qed
  qed
  have sub: "\<And>j x. j < nat ?m \<Longrightarrow> x \<in> set (?B' j) \<Longrightarrow> x \<in> set (B j) \<and> x \<noteq> a"
  proof -
    fix j x assume j: "j < nat ?m" "x \<in> set (?B' j)"
    show "x \<in> set (B j) \<and> x \<noteq> a"
    proof (cases "j = i")
      case True
      with j(2) sp d show ?thesis by auto
    next
      case False
      with j(2) have xj: "x \<in> set (B j)" by simp
      from inB [OF j(1) False xj] i(2) xj show ?thesis by auto
    qed
  qed
  have c2: "\<forall>j<nat ?m. \<forall>x\<in>set (?B' j). \<exists>k. key_of ?h' x = Some k \<and> hash hp k ?m = ok (int j)"
  proof (intro allI impI ballI)
    fix j x assume j: "j < nat ?m" "x \<in> set (?B' j)"
    from sub [OF j] have x: "x \<in> set (B j)" "x \<noteq> a" by simp_all
    from buckets_inv_key [OF inv j(1) x(1)] kv [OF x(2)]
    show "\<exists>k. key_of ?h' x = Some k \<and> hash hp k ?m = ok (int j)" by simp
  qed
  have c3: "\<forall>j<nat ?m. distinct (?B' j)"
    using buckets_inv_distinct [OF inv] d by auto
  have nodes: "all_nodes ?m ?B' = all_nodes ?m B - {a}"
  proof (intro set_eqI iffI)
    fix x assume "x \<in> all_nodes ?m ?B'"
    then obtain j where j: "j < nat ?m" "x \<in> set (?B' j)" by (auto dest: all_nodesE)
    from sub [OF j] j(1) show "x \<in> all_nodes ?m B - {a}" by (auto simp: all_nodes_def)
  next
    fix x assume "x \<in> all_nodes ?m B - {a}"
    then obtain j where j: "j < nat ?m" "x \<in> set (B j)" "x \<noteq> a"
      by (auto dest: all_nodesE)
    have "x \<in> set (?B' j)" using j sp by (cases "j = i") auto
    from all_nodesI [of j ?m x ?B'] j(1) this show "x \<in> all_nodes ?m ?B'" by blast
  qed
  have c4: "inj_on (key_of ?h') (all_nodes ?m ?B')"
  proof -
    have "inj_on (key_of ?h) (all_nodes ?m B - {a})"
      by (rule inj_on_subset [OF buckets_inv_inj [OF inv]]) auto
    moreover have "inj_on (key_of ?h') (all_nodes ?m B - {a}) = inj_on (key_of ?h) (all_nodes ?m B - {a})"
      by (rule inj_on_cong) (simp add: kv)
    ultimately show ?thesis by (simp add: nodes)
  qed
  have inv': "buckets_inv hp ?m (ht_nodes ?ht') (ht_table ?ht') ?B'"
    unfolding buckets_inv_def using c1 c2 c3 c4 by simp
  have kv': "\<forall>x. x \<noteq> a \<longrightarrow> key_of (ht_nodes ?ht') x = key_of ?h x
                             \<and> val_of (ht_nodes ?ht') x = val_of ?h x"
    using kv by simp
  show ?thesis
    using ev inv' nodes kv'
    by (intro exI [of _ ?ht'] exI [of _ ?B']) simp
qed

text \<open>Shrinking a well-formed table into a zero array keeps it well-formed, with the same nodes.\<close>

lemma shrink_inv:
  assumes ok: "params_ok hp" and m: "0 < ht_m ht" "ht_m ht \<le> INT_MAX"
      and inv: "buckets_inv hp (ht_m ht) (ht_nodes ht) (ht_table ht) B"
      and zero: "\<forall>i. junk i = Ptr None"
  shows "\<exists>ht1 B1. shrink_hash_table hp junk ht = ok ht1
           \<and> 0 < ht_m ht1 \<and> ht_m ht1 \<le> INT_MAX \<and> ht_n ht1 = ht_n ht
           \<and> buckets_inv hp (ht_m ht1) (ht_nodes ht1) (ht_table ht1) B1
           \<and> all_nodes (ht_m ht1) B1 = all_nodes (ht_m ht) B
           \<and> (\<forall>x. key_of (ht_nodes ht1) x = key_of (ht_nodes ht) x
                  \<and> val_of (ht_nodes ht1) x = val_of (ht_nodes ht) x)"
proof (cases "ht_m ht < MIN_TABLE_SIZE * 2")
  case True
  then have "shrink_hash_table hp junk ht = ok ht" by (simp add: shrink_hash_table_def)
  with m inv show ?thesis
    by (intro exI [of _ ht] exI [of _ B]) simp
next
  case False
  then have big: "32 \<le> ht_m ht" by (simp add: MIN_TABLE_SIZE_def)
  have half: "ht_m ht sdiv 2 = ht_m ht div 2"
    using big by (simp add: signed_divide_int_def)
  have nm: "0 < ht_m ht sdiv 2" "ht_m ht sdiv 2 \<le> INT_MAX"
    using big m half by simp_all
  have z: "\<forall>i<nat (ht_m ht sdiv 2). junk i = Ptr None" using zero by simp
  from resize_inv [OF ok nm inv z] obtain ht1 C where
    r0: "resize_hash_table hp junk ht (ht_m ht sdiv 2) = ok ht1
       \<and> ht_m ht1 = ht_m ht sdiv 2 \<and> ht_n ht1 = ht_n ht
       \<and> buckets_inv hp (ht_m ht sdiv 2) (ht_nodes ht1) (ht_table ht1) C
       \<and> all_nodes (ht_m ht sdiv 2) C = all_nodes (ht_m ht) B
       \<and> (\<forall>x. key_of (ht_nodes ht1) x = key_of (ht_nodes ht) x
              \<and> val_of (ht_nodes ht1) x = val_of (ht_nodes ht) x)"
    by (elim exE)
  have g: "shrink_hash_table hp junk ht = resize_hash_table hp junk ht (ht_m ht sdiv 2)"
    using False by (simp add: shrink_hash_table_def)
  show ?thesis
    using r0 g nm by (intro exI [of _ ht1] exI [of _ C]) simp
qed

text \<open>
  Removal from a well-formed table, when every fresh array is zero: the call
  returns a well-formed table without the key, every other key as before.
\<close>

lemma remove_wf:
  assumes ok: "params_ok hp" and wf: "wf hp ht"
      and zero: "\<forall>i. junk i = Ptr None"
  shows "\<exists>ht'. hash_remove hp junk ht key = ok ht' \<and> wf hp ht'
           \<and> hash_contains hp ht' key = ok (ht', 0)
           \<and> hash_search hp ht' key = ok (ht', None)
           \<and> (\<forall>k. k \<noteq> key \<longrightarrow> lookup hp ht' k = lookup hp ht k)"
proof -
  from wf obtain B where
    m: "0 \<le> ht_m ht" "ht_m ht \<le> INT_MAX" and
    inv: "buckets_inv hp (ht_m ht) (ht_nodes ht) (ht_table ht) B" and
    n: "ht_n ht = int (card (all_nodes (ht_m ht) B))"
    unfolding wf_def by blast
  from search_node_spec [OF ok m inv, of key] obtain r where
    r: "hash_search_node hp ht key = ok r"
       "case r of None \<Rightarrow> \<forall>a\<in>all_nodes (ht_m ht) B. key_of (ht_nodes ht) a \<noteq> Some key
        | Some a \<Rightarrow> a \<in> all_nodes (ht_m ht) B \<and> key_of (ht_nodes ht) a = Some key"
    by blast
  show ?thesis
  proof (cases r)
    case None
    with r have rm: "hash_remove hp junk ht key = ok ht" by (simp add: hash_remove_def)
    from r None have "hash_contains hp ht key = ok (ht, 0)" "hash_search hp ht key = ok (ht, None)"
      by (simp_all add: hash_contains_def hash_search_def)
    with rm wf show ?thesis by auto
  next
    case (Some a)
    with r(2) have a: "a \<in> all_nodes (ht_m ht) B" "key_of (ht_nodes ht) a = Some key" by auto
    have mpos: "0 < ht_m ht"
    proof (rule ccontr)
      assume "\<not> 0 < ht_m ht"
      with m have "ht_m ht = 0" by simp
      with a(1) show False by (simp add: all_nodes_def)
    qed
    \<comment> \<open>the table after the shrink check, and the node found in it\<close>
    have "\<exists>ht1 B1. hash_remove hp junk ht key = unlink_node hp ht1 key (Some a)
           \<and> 0 < ht_m ht1 \<and> ht_m ht1 \<le> INT_MAX \<and> ht_n ht1 = ht_n ht
           \<and> buckets_inv hp (ht_m ht1) (ht_nodes ht1) (ht_table ht1) B1
           \<and> all_nodes (ht_m ht1) B1 = all_nodes (ht_m ht) B
           \<and> (\<forall>x. key_of (ht_nodes ht1) x = key_of (ht_nodes ht) x
                  \<and> val_of (ht_nodes ht1) x = val_of (ht_nodes ht) x)"
    proof (cases "ht_n ht sdiv 4 \<le> ht_m ht")
      case True
      from shrink_inv [OF ok mpos m(2) inv zero] obtain ht1 B1 where
        s0: "shrink_hash_table hp junk ht = ok ht1
           \<and> 0 < ht_m ht1 \<and> ht_m ht1 \<le> INT_MAX \<and> ht_n ht1 = ht_n ht
           \<and> buckets_inv hp (ht_m ht1) (ht_nodes ht1) (ht_table ht1) B1
           \<and> all_nodes (ht_m ht1) B1 = all_nodes (ht_m ht) B
           \<and> (\<forall>x. key_of (ht_nodes ht1) x = key_of (ht_nodes ht) x
                  \<and> val_of (ht_nodes ht1) x = val_of (ht_nodes ht) x)"
        by (elim exE)
      then have s: "shrink_hash_table hp junk ht = ok ht1"
        and m1: "0 \<le> ht_m ht1" "ht_m ht1 \<le> INT_MAX"
        and inv1: "buckets_inv hp (ht_m ht1) (ht_nodes ht1) (ht_table ht1) B1"
        and a1: "a \<in> all_nodes (ht_m ht1) B1" "key_of (ht_nodes ht1) a = Some key"
        using a by simp_all
      from search_node_SomeI [OF ok m1 inv1 a1]
      have "hash_remove hp junk ht key = unlink_node hp ht1 key (Some a)"
        using r(1) Some True s by (simp add: hash_remove_def)
      with s0 show ?thesis by (intro exI [of _ ht1] exI [of _ B1]) simp
    next
      case False
      then have "hash_remove hp junk ht key = unlink_node hp ht key (Some a)"
        using r(1) Some by (simp add: hash_remove_def)
      with mpos m inv show ?thesis by (intro exI [of _ ht] exI [of _ B]) simp
    qed
    then obtain ht1 B1 where
      g0: "hash_remove hp junk ht key = unlink_node hp ht1 key (Some a)
           \<and> 0 < ht_m ht1 \<and> ht_m ht1 \<le> INT_MAX \<and> ht_n ht1 = ht_n ht
           \<and> buckets_inv hp (ht_m ht1) (ht_nodes ht1) (ht_table ht1) B1
           \<and> all_nodes (ht_m ht1) B1 = all_nodes (ht_m ht) B
           \<and> (\<forall>x. key_of (ht_nodes ht1) x = key_of (ht_nodes ht) x
                  \<and> val_of (ht_nodes ht1) x = val_of (ht_nodes ht) x)"
      by (elim exE)
    then have
      rm: "hash_remove hp junk ht key = unlink_node hp ht1 key (Some a)" and
      m1: "0 < ht_m ht1" "ht_m ht1 \<le> INT_MAX" and n1: "ht_n ht1 = ht_n ht" and
      inv1: "buckets_inv hp (ht_m ht1) (ht_nodes ht1) (ht_table ht1) B1" and
      nodes1: "all_nodes (ht_m ht1) B1 = all_nodes (ht_m ht) B" and
      kv1: "\<forall>x. key_of (ht_nodes ht1) x = key_of (ht_nodes ht) x
                  \<and> val_of (ht_nodes ht1) x = val_of (ht_nodes ht) x"
      by blast+
    have a1: "a \<in> all_nodes (ht_m ht1) B1" "key_of (ht_nodes ht1) a = Some key"
      using a nodes1 kv1 by simp_all
    have n0: "0 \<le> ht_n ht1" using n n1 by simp
    from unlink_inv [OF ok m1 inv1 a1 n0] obtain ht' B' where
      u0: "unlink_node hp ht1 key (Some a) = ok ht'
           \<and> ht_m ht' = ht_m ht1 \<and> ht_n ht' = ht_n ht1 - 1
           \<and> buckets_inv hp (ht_m ht1) (ht_nodes ht') (ht_table ht') B'
           \<and> all_nodes (ht_m ht1) B' = all_nodes (ht_m ht1) B1 - {a}
           \<and> (\<forall>x. x \<noteq> a \<longrightarrow> key_of (ht_nodes ht') x = key_of (ht_nodes ht1) x
                             \<and> val_of (ht_nodes ht') x = val_of (ht_nodes ht1) x)"
      by (elim exE)
    then have
      u: "unlink_node hp ht1 key (Some a) = ok ht'" and
      m': "ht_m ht' = ht_m ht1" and n': "ht_n ht' = ht_n ht1 - 1" and
      inv': "buckets_inv hp (ht_m ht') (ht_nodes ht') (ht_table ht') B'" and
      nodes': "all_nodes (ht_m ht') B' = all_nodes (ht_m ht) B - {a}" and
      kv': "\<forall>x. x \<noteq> a \<longrightarrow> key_of (ht_nodes ht') x = key_of (ht_nodes ht) x
                             \<and> val_of (ht_nodes ht') x = val_of (ht_nodes ht) x"
      using nodes1 kv1 by simp_all
    have mb': "0 \<le> ht_m ht'" "ht_m ht' \<le> INT_MAX" using m1 m' by simp_all
    have card': "int (card (all_nodes (ht_m ht') B')) = ht_n ht'"
    proof -
      have "card (all_nodes (ht_m ht) B - {a}) = card (all_nodes (ht_m ht) B) - 1"
        using a(1) by simp
      moreover have "0 < card (all_nodes (ht_m ht) B)"
        using a(1) by (auto simp: card_gt_0_iff)
      ultimately show ?thesis using nodes' n n' n1 by simp
    qed
    have w: "wf hp ht'"
      unfolding wf_def using mb' inv' card' by auto
    have gone: "\<forall>x\<in>all_nodes (ht_m ht') B'. key_of (ht_nodes ht') x \<noteq> Some key"
    proof
      fix x assume "x \<in> all_nodes (ht_m ht') B'"
      with nodes' have x: "x \<in> all_nodes (ht_m ht) B" "x \<noteq> a" by auto
      with buckets_inv_inj [OF inv] a have "key_of (ht_nodes ht) x \<noteq> Some key"
        by (auto simp: inj_on_def)
      with kv' x(2) show "key_of (ht_nodes ht') x \<noteq> Some key" by simp
    qed
    from search_node_NoneI [OF ok mb' inv' gone]
    have c: "hash_contains hp ht' key = ok (ht', 0)" "hash_search hp ht' key = ok (ht', None)"
      by (simp_all add: hash_contains_def hash_search_def)
    have others: "\<forall>k. k \<noteq> key \<longrightarrow> lookup hp ht' k = lookup hp ht k"
    proof (intro allI impI)
      fix k assume kk: "k \<noteq> key"
      have "hash_search_node hp ht' k = hash_search_node hp ht k \<and> lookup hp ht' k = lookup hp ht k"
      proof (rule lookup_agree [OF ok m mb' inv inv'])
        show "\<forall>x. (x \<in> all_nodes (ht_m ht') B' \<and> key_of (ht_nodes ht') x = Some k)
                 = (x \<in> all_nodes (ht_m ht) B \<and> key_of (ht_nodes ht) x = Some k)"
        proof
          fix x
          show "(x \<in> all_nodes (ht_m ht') B' \<and> key_of (ht_nodes ht') x = Some k)
                 = (x \<in> all_nodes (ht_m ht) B \<and> key_of (ht_nodes ht) x = Some k)"
          proof (cases "x = a")
            case True
            with nodes' a(2) kk show ?thesis by simp
          next
            case False
            with kv' nodes' show ?thesis by simp
          qed
        qed
        show "\<forall>x\<in>all_nodes (ht_m ht) B. key_of (ht_nodes ht) x = Some k
                 \<longrightarrow> val_of (ht_nodes ht') x = val_of (ht_nodes ht) x"
        proof (intro ballI impI)
          fix x assume "key_of (ht_nodes ht) x = Some k"
          with a(2) kk have "x \<noteq> a" by auto
          with kv' show "val_of (ht_nodes ht') x = val_of (ht_nodes ht) x" by simp
        qed
      qed
      then show "lookup hp ht' k = lookup hp ht k" by simp
    qed
    from rm u w c others show ?thesis by auto
  qed
qed

lemma params_ok_init [simp]: "params_ok (init_hash r1 r2)"
  by (simp add: params_ok_def)

lemma wf_new: "wf hp new_hash_table"
  by (auto simp: wf_def new_hash_table_def buckets_inv_def all_nodes_def INT_MAX_def
           intro!: exI [of _ "\<lambda>_. []"])

lemma example_wf: "wf (init_hash 3 7) example_table"
proof -
  let ?B = "(\<lambda>_. [])(25 := [0::nat])"
  have h: "hash (init_hash 3 7) ''a'' 32 = ok 25" by code_simp
  have nodes: "all_nodes 32 ?B = {0}"
    by (auto simp: all_nodes_def split: if_splits)
  have slot: "\<And>i. i < 32 \<Longrightarrow> read_slot (ht_table example_table) (int i)
                 = ok (if i = 25 then Some 0 else None)"
    by (simp add: example_table_def read_slot_def nth_list_update)
  have "buckets_inv (init_hash 3 7) 32 (ht_nodes example_table) (ht_table example_table) ?B"
    unfolding buckets_inv_def
    by (simp add: slot nodes) (simp add: example_table_def key_of_def h)
  then show ?thesis
    unfolding wf_def
    by (intro conjI exI [of _ ?B]) (simp_all add: example_table_def nodes INT_MAX_def)
qed

text \<open>
  With zero fresh arrays the round trip, the upsert and the removal hold on
  every well-formed table that is not at the limits of \<^verbatim>\<open>int\<close>.
\<close>

lemma round_trip_zeroed:
  assumes "params_ok hp" "wf hp ht" "ht_nodes ht a = None" "\<forall>i. junk i = Ptr None"
      "ht_n ht < INT_MAX" "2 * ht_m ht \<le> INT_MAX"
  shows "\<exists>ht'. hash_insert hp junk a ht key val = ok ht'
           \<and> hash_search hp ht' key = ok (ht', Some val)"
proof -
  from insert_wf [OF assms, of key val] obtain ht' where
    i: "hash_insert hp junk a ht key val = ok ht'" by blast
  from insert_then_search [OF i] i show ?thesis by blast
qed

lemma upsert_zeroed:
  assumes "params_ok hp" "wf hp ht" "ht_nodes ht a = None" "\<forall>i. junk i = Ptr None"
      "ht_n ht < INT_MAX" "2 * ht_m ht \<le> INT_MAX"
  shows "\<exists>t1 t2. hash_insert hp junk a ht key v1 = ok t1
           \<and> hash_insert hp junk' a' t1 key v2 = ok t2
           \<and> ht_n t2 = ht_n t1
           \<and> hash_search hp t2 key = ok (t2, Some v2)"
proof -
  from insert_wf [OF assms, of key v1] obtain t1 where
    i: "hash_insert hp junk a ht key v1 = ok t1" by blast
  from insert_twice [OF i, of junk' a' v2] i show ?thesis by blast
qed

lemma removal_zeroed:
  assumes "params_ok hp" "wf hp ht" "ht_nodes ht a = None" "\<forall>i. junk i = Ptr None"
      "ht_n ht < INT_MAX" "2 * ht_m ht \<le> INT_MAX"
  shows "\<exists>t1 t2. hash_insert hp junk a ht key val = ok t1
           \<and> hash_remove hp junk t1 key = ok t2
           \<and> hash_contains hp t2 key = ok (t2, 0)
           \<and> hash_search hp t2 key = ok (t2, None)"
proof -
  from insert_wf [OF assms, of key val] obtain t1 where
    i: "hash_insert hp junk a ht key val = ok t1" "wf hp t1" by blast
  from remove_wf [OF assms(1) i(2) assms(4), of key] i(1) show ?thesis by blast
qed

subsection \<open>Runs of insertions\<close>

lemma insert_n_m:
  assumes "hash_insert hp junk a ht key val = ok ht'"
  shows "(ht_n ht' = ht_n ht \<and> ht_m ht' = ht_m ht)
       \<or> (ht_n ht' = ht_n ht + 1
          \<and> ht_m ht' = (if ht_n ht = ht_m ht
                         then (if ht_m ht = 0 then MIN_TABLE_SIZE else 2 * ht_m ht)
                         else ht_m ht))"
proof -
  from assms obtain found where f: "hash_search_node hp ht key = ok found"
    by (auto simp: hash_insert_def bind_o_eq_ok)
  show ?thesis
  proof (cases found)
    case None
    from insert_new_key [OF f [unfolded None] assms] show ?thesis
      by (auto split: if_splits)
  next
    case (Some b)
    with f assms show ?thesis
      by (auto simp: hash_insert_def bind_o_eq_ok)
  qed
qed

lemma insert_all_reachable:
  "reachable hp ht \<Longrightarrow> insert_all hp junk a ht kvs = ok t \<Longrightarrow> reachable hp t"
proof (induction kvs arbitrary: a ht)
  case Nil
  then show ?case by simp
next
  case (Cons kv kvs)
  obtain k v where kv: "kv = (k, v)" by (cases kv)
  from Cons.prems(2) kv obtain ht' where
    i: "hash_insert hp junk a ht k v = ok ht'" and
    r: "insert_all hp junk (Suc a) ht' kvs = ok t"
    by (auto simp: bind_o_eq_ok)
  from reach_insert [OF Cons.prems(1) i] have "reachable hp ht'" .
  from Cons.IH [OF this r] show ?case .
qed

text \<open>
  With zero-filled bucket arrays and fresh node addresses, a run of insertions
  into a well-formed table returns a well-formed table.  The bound \<open>2^28\<close> on
  the number of entries keeps \<open>2 * m\<close> within \<^verbatim>\<open>int\<close>.
\<close>

lemma insert_all_wf:
  assumes ok: "params_ok hp" and zero: "\<forall>i. junk i = Ptr None"
  shows "wf hp ht \<Longrightarrow> \<forall>x. a \<le> x \<longrightarrow> ht_nodes ht x = None
           \<Longrightarrow> ht_m ht \<le> max 16 (2 * ht_n ht)
           \<Longrightarrow> ht_n ht + int (length kvs) \<le> 2 ^ 28
           \<Longrightarrow> \<exists>t. insert_all hp junk a ht kvs = ok t \<and> wf hp t
                  \<and> (\<forall>x. a + length kvs \<le> x \<longrightarrow> ht_nodes t x = None)"
proof (induction kvs arbitrary: a ht)
  case Nil
  then show ?case by simp
next
  case (Cons kv kvs)
  obtain k v where kv: "kv = (k, v)" by (cases kv)
  have n0: "0 \<le> ht_n ht" using Cons.prems(1) by (auto simp: wf_def)
  have nb: "ht_n ht < INT_MAX" using Cons.prems(4) by (simp add: INT_MAX_def)
  have mb: "2 * ht_m ht \<le> INT_MAX"
    using Cons.prems(3,4) by (simp add: INT_MAX_def max_def split: if_splits)
  have fresh: "ht_nodes ht a = None" using Cons.prems(2) by simp
  from insert_wf [OF ok Cons.prems(1) fresh zero nb mb, of k v] obtain ht' where
    i: "hash_insert hp junk a ht k v = ok ht'" and
    w: "wf hp ht'" and
    fr: "\<forall>x. x \<noteq> a \<longrightarrow> key_of (ht_nodes ht') x = key_of (ht_nodes ht) x"
    by blast
  have fresh': "\<forall>x. Suc a \<le> x \<longrightarrow> ht_nodes ht' x = None"
  proof (intro allI impI)
    fix x assume x: "Suc a \<le> x"
    then have "key_of (ht_nodes ht') x = key_of (ht_nodes ht) x" using fr by simp
    also have "\<dots> = None" using Cons.prems(2) x by (simp add: key_of_def)
    finally show "ht_nodes ht' x = None" by (simp add: key_of_None)
  qed
  from insert_n_m [OF i] n0 Cons.prems(3) have
    m': "ht_m ht' \<le> max 16 (2 * ht_n ht')" and n': "ht_n ht' \<le> ht_n ht + 1"
    by (auto simp: MIN_TABLE_SIZE_def max_def split: if_splits)
  from n' Cons.prems(4) have b': "ht_n ht' + int (length kvs) \<le> 2 ^ 28" by simp
  from Cons.IH [OF w fresh' m' b'] obtain t where
    t: "insert_all hp junk (Suc a) ht' kvs = ok t" "wf hp t"
       "\<forall>x. Suc a + length kvs \<le> x \<longrightarrow> ht_nodes t x = None"
    by blast
  with i kv show ?case by (intro exI [of _ t]) simp
qed

lemma full_table_wf:
  "\<exists>t. full_table = ok t \<and> wf (init_hash 3 7) t \<and> reachable (init_hash 3 7) t
      \<and> (\<forall>x. 16 \<le> x \<longrightarrow> ht_nodes t x = None) \<and> ht_m t = 16 \<and> ht_n t = 16"
proof -
  have z: "\<forall>i. zeroed i = Ptr None" by (simp add: zeroed_def)
  have e: "\<forall>x. 0 \<le> x \<longrightarrow> ht_nodes new_hash_table x = None"
    by (simp add: new_hash_table_def)
  have m: "ht_m new_hash_table \<le> max 16 (2 * ht_n new_hash_table)"
    by (simp add: new_hash_table_def)
  have n: "ht_n new_hash_table + int (length sixteen_pairs) \<le> 2 ^ 28"
    by (simp add: new_hash_table_def sixteen_pairs_def)
  from insert_all_wf [OF params_ok_init z wf_new e m n, of 3 7] obtain t where
    t: "insert_all (init_hash 3 7) zeroed 0 new_hash_table sixteen_pairs = ok t"
       "wf (init_hash 3 7) t"
       "\<forall>x. 0 + length sixteen_pairs \<le> x \<longrightarrow> ht_nodes t x = None"
    by blast
  have r: "reachable (init_hash 3 7) t"
    using reach_new t(1) by (rule insert_all_reachable)
  have f: "full_table = ok t" using t(1) by (simp add: full_table_def)
  from full_m_n have "ht_m t = 16" "ht_n t = 16" by (simp_all add: f)
  with f t(2,3) r show ?thesis by (intro exI [of _ t]) (simp add: sixteen_pairs_def)
qed

subsection \<open>Growth at insertion\<close>



subsection \<open>Lookups leave the table alone\<close>

lemma lookups_return:
  assumes ok: "params_ok hp" and wf: "wf hp ht"
  shows "(\<exists>r. hash_search hp ht key = ok (ht, r)) \<and> (\<exists>c. hash_contains hp ht key = ok (ht, c))"
proof -
  from wf obtain B where
    m: "0 \<le> ht_m ht" "ht_m ht \<le> INT_MAX" and
    inv: "buckets_inv hp (ht_m ht) (ht_nodes ht) (ht_table ht) B"
    unfolding wf_def by blast
  from search_node_spec [OF ok m inv, of key] obtain r where
    r: "hash_search_node hp ht key = ok r"
       "case r of None \<Rightarrow> \<forall>a\<in>all_nodes (ht_m ht) B. key_of (ht_nodes ht) a \<noteq> Some key
        | Some a \<Rightarrow> a \<in> all_nodes (ht_m ht) B \<and> key_of (ht_nodes ht) a = Some key"
    by blast
  have c: "\<exists>c. hash_contains hp ht key = ok (ht, c)"
    using r(1) by (simp add: hash_contains_def)
  have "\<exists>v. hash_search hp ht key = ok (ht, v)"
  proof (cases r)
    case None
    with r(1) show ?thesis by (simp add: hash_search_def)
  next
    case (Some a)
    with r(2) have "a \<in> all_nodes (ht_m ht) B" by simp
    from all_nodes_live [OF inv this] obtain nd where "ht_nodes ht a = Some nd" by blast
    with r(1) Some show ?thesis by (simp add: hash_search_def deref_def)
  qed
  with c show ?thesis by blast
qed

text \<open>
  Claim C10.  Whenever \<^verbatim>\<open>hash_search\<close> or \<^verbatim>\<open>hash_contains\<close> returns, the
  table after the call is the table before it: \<open>m\<close>, \<open>n\<close>, the bucket array
  and every node with its links, key and value.  On a well-formed table, after
  \<^verbatim>\<open>init_hash\<close>, both calls return.
\<close>

theorem lookup_frame:
  "(hash_search hp ht key = ok (ht', r) \<longrightarrow> ht' = ht)
   \<and> (hash_contains hp ht key = ok (ht', c) \<longrightarrow> ht' = ht)
   \<and> (params_ok hp \<and> wf hp ht \<longrightarrow>
        (\<exists>r. hash_search hp ht key = ok (ht, r)) \<and> (\<exists>c. hash_contains hp ht key = ok (ht, c)))"
  using lookups_return [of hp ht key]
  by (auto simp: hash_search_def hash_contains_def bind_o_eq_ok split: option.splits)

theorem lookup_frame_witness:
  "hash_search (init_hash 3 7) example_table ''a'' = ok (example_table, Some ''1'')
   \<and> hash_contains (init_hash 3 7) example_table ''a'' = ok (example_table, 1)"
proof -
  from lookup_frame [of "init_hash 3 7" example_table "''a''" example_table "Some ''1''" 1]
       example_wf params_ok_init [of 3 7]
  have "(\<exists>r. hash_search (init_hash 3 7) example_table ''a'' = ok (example_table, r))
      \<and> (\<exists>c. hash_contains (init_hash 3 7) example_table ''a'' = ok (example_table, c))"
    by blast
  with example_search example_contains show ?thesis by simp
qed

subsection \<open>The bucket array is used as \<^verbatim>\<open>malloc\<close> left it\<close>

text \<open>
  Claim C3.  \<^verbatim>\<open>grow_hash_table\<close> on the empty table returns with the 16
  elements of the new array exactly as \<^verbatim>\<open>malloc\<close> left them, none set to
  null, and so does \<^verbatim>\<open>resize_hash_table\<close> for every new size; the emptiness
  probe of \<^verbatim>\<open>hash_insert\<close> then reads one of them, and with an indeterminate
  block the first insertion into an empty table faults at that read, for every
  key and value.
\<close>

theorem fresh_array_not_cleared:
  "grow_hash_table hp junk new_hash_table
     = ok (new_hash_table\<lparr>ht_m := 16, ht_table := Some (map junk [0..<16])\<rparr>)
   \<and> resize_hash_table hp junk new_hash_table newm
     = ok (new_hash_table\<lparr>ht_table := malloc_slots junk newm, ht_m := newm\<rparr>)
   \<and> hash_insert (init_hash r1 r2) indeterminate a new_hash_table key val = err UninitRead"
  using insert_empty_uninit [of r1 r2 a key val]
  by (simp add: grow_empty resize_empty MIN_TABLE_SIZE_def malloc_slots_def)

text \<open>
  Claim C1.  On the empty table, with an indeterminate fresh array,
  \<^verbatim>\<open>hash_insert(t, k, v)\<close> followed by \<^verbatim>\<open>hash_search(t, k)\<close> does not return
  \<open>v\<close>: the insertion faults at the read of an unwritten array element.  (Where the
  insertion returns, the search returns \<open>v\<close>: \<open>insert_then_search\<close>; with zero
  arrays it returns on every well-formed table: \<open>round_trip_zeroed\<close>.)
\<close>

theorem round_trip_fails_on_empty_table:
  "bind_o (hash_insert (init_hash r1 r2) indeterminate a new_hash_table k v)
          (\<lambda>t. hash_search (init_hash r1 r2) t k) = err UninitRead"
  by (simp add: insert_empty_uninit)

text \<open>
  Claim C2.  After sixteen insertions into the empty table the table is full
  (\<open>n = m = 16\<close>) and holds \<open>''a''\<close> with value \<open>''1''\<close>.  The next insertion
  of a new key grows it: \<^verbatim>\<open>grow_hash_table\<close> calls
  \<^verbatim>\<open>resize_hash_table\<close> with 32, and with an indeterminate new array the
  resize faults at its first emptiness probe, so no lookup follows it.  The
  shrinking resize fails the same way: when the seventeenth insertion has
  returned, with \<open>m = 32\<close>, the removal of its key halves the table, and with
  an indeterminate new array it faults.  (Into a zero array the resize of a
  well-formed table returns and keeps every lookup: \<open>resize_fidelity\<close>.)
\<close>

theorem resize_faults_on_full_table:
  "\<exists>t. full_table = ok t \<and> reachable (init_hash 3 7) t \<and> ht_m t = 16 \<and> ht_n t = 16
      \<and> hash_search (init_hash 3 7) t ''a'' = ok (t, Some ''1'')
      \<and> resize_hash_table (init_hash 3 7) indeterminate t 32 = err UninitRead
      \<and> grow_hash_table (init_hash 3 7) indeterminate t = err UninitRead
      \<and> hash_insert (init_hash 3 7) indeterminate 16 t ''q'' ''17'' = err UninitRead
      \<and> (\<exists>t'. hash_insert (init_hash 3 7) zeroed 16 t ''q'' ''17'' = ok t'
             \<and> ht_m t' = 32 \<and> ht_n t' = 17
             \<and> hash_remove (init_hash 3 7) indeterminate t' ''q'' = err UninitRead)"
proof -
  from full_table_wf obtain t where
    t: "full_table = ok t" "wf (init_hash 3 7) t" "reachable (init_hash 3 7) t"
       "ht_m t = 16" "ht_n t = 16"
    by blast
  from lookups_return [OF params_ok_init t(2), of "''a''"] obtain r where
    r: "hash_search (init_hash 3 7) t ''a'' = ok (t, r)" by blast
  from full_lookup_a have "r = Some ''1''" by (simp add: lookup_def t(1) r)
  with r have s: "hash_search (init_hash 3 7) t ''a'' = ok (t, Some ''1'')" by simp
  have f: "resize_hash_table (init_hash 3 7) indeterminate t 32 = err UninitRead"
    using faultD [OF full_resize_faults] by (simp add: t(1))
  have g: "grow_hash_table (init_hash 3 7) indeterminate t = err UninitRead"
    using f t(4) by (simp add: grow_hash_table_def INT_MIN_def INT_MAX_def)
  have i: "hash_insert (init_hash 3 7) indeterminate 16 t ''q'' ''17'' = err UninitRead"
    using faultD [OF full_insert_faults] by (simp add: t(1))
  from full_grown_m_n obtain t' where
    j: "hash_insert (init_hash 3 7) zeroed 16 t ''q'' ''17'' = ok t'" "ht_m t' = 32" "ht_n t' = 17"
    by (auto simp: t(1) bind_o_eq_ok)
  have k: "hash_remove (init_hash 3 7) indeterminate t' ''q'' = err UninitRead"
    using faultD [OF full_shrink_faults] by (simp add: t(1) j(1))
  from t s f g i j k show ?thesis by (intro exI [of _ t]) simp
qed

text \<open>
  Claim C7.  On the empty table, with an indeterminate fresh array, the sequence
  \<^verbatim>\<open>hash_insert(t, k, v1)\<close>, \<^verbatim>\<open>hash_insert(t, k, v2)\<close>, \<^verbatim>\<open>hash_search(t, k)\<close>
  faults in its first call.  (Once the first insertion has returned, the second
  returns, keeps \<open>n\<close> and the search returns \<open>v2\<close>: \<open>insert_twice\<close>; with zero
  arrays the first returns on every well-formed table: \<open>upsert_zeroed\<close>.)
\<close>

theorem upsert_fails_on_empty_table:
  "bind_o (hash_insert (init_hash r1 r2) indeterminate a new_hash_table k v1) (\<lambda>t1.
   bind_o (hash_insert (init_hash r1 r2) junk a' t1 k v2) (\<lambda>t2.
   hash_search (init_hash r1 r2) t2 k)) = err UninitRead"
  by (simp add: insert_empty_uninit)

text \<open>
  Claim C8.  On the empty table, with an indeterminate fresh array, the sequence
  \<^verbatim>\<open>hash_insert(t, k, v)\<close>, \<^verbatim>\<open>hash_remove(t, k)\<close>, \<^verbatim>\<open>hash_contains(t, k)\<close>
  faults in its first call.  (With zero arrays the three calls return on every
  well-formed table, \<^verbatim>\<open>hash_contains\<close> with 0 and \<^verbatim>\<open>hash_search\<close> with null:
  \<open>removal_zeroed\<close>.)
\<close>

theorem removal_fails_on_empty_table:
  "bind_o (hash_insert (init_hash r1 r2) indeterminate a new_hash_table k v) (\<lambda>t1.
   bind_o (hash_remove (init_hash r1 r2) junk t1 k) (\<lambda>t2.
   hash_contains (init_hash r1 r2) t2 k)) = err UninitRead"
  by (simp add: insert_empty_uninit)

end
